theory Spec2Isabelle
  imports Main "HOL-Library.Sublist" "HOL-Library.Multiset" "HOL-Library.AList"
begin

section \<open>Code size analysis: the data model of \<^verbatim>\<open>scripts/count-lines.py\<close>\<close>

text \<open>
  The two module constants of the script. Python integers are unbounded, so line counts
  and thresholds are \<^typ>\<open>int\<close>.
\<close>

definition CRITICAL_THRESHOLD :: int where
  "CRITICAL_THRESHOLD = 500"

definition WARNING_THRESHOLD :: int where
  "WARNING_THRESHOLD = 400"

text \<open>
  The dataclass \<^verbatim>\<open>FileInfo\<close>; its field \<^verbatim>\<open>lines\<close> is called \<open>lines\<close>
  here too, and its property \<^verbatim>\<open>status\<close> is the function \<open>status\<close> below.
\<close>

record FileInfo =
  path :: string
  lines :: int
  category :: string

definition status :: "FileInfo \<Rightarrow> string" where
  "status f =
     (if lines f > CRITICAL_THRESHOLD then ''critical''
      else if lines f > WARNING_THRESHOLD then ''warning''
      else ''good'')"

section \<open>Strings\<close>

text \<open>
  Python's \<^verbatim>\<open>p in s\<close> on strings is the substring test, \<^verbatim>\<open>s.endswith(x)\<close> the
  suffix test, and \<^verbatim>\<open>s.replace(a, b)\<close> with one-character \<open>a\<close> and \<open>b\<close> replaces
  every occurrence of the character.
\<close>

definition str_in :: "string \<Rightarrow> string \<Rightarrow> bool" where
  "str_in p s = sublist p s"

definition endswith :: "string \<Rightarrow> string \<Rightarrow> bool" where
  "endswith s x = suffix x s"

definition replace_char :: "char \<Rightarrow> char \<Rightarrow> string \<Rightarrow> string" where
  "replace_char a b s = map (\<lambda>c. if c = a then b else c) s"

section \<open>The classifier\<close>

text \<open>\<^verbatim>\<open>categorize_file\<close>: the chain of conditionals as it is written, on the path with
  every backslash (character 0x5C) replaced by a slash.\<close>

definition categorize_file :: "string \<Rightarrow> string" where
  "categorize_file rel_path =
     (let parts = replace_char (CHR 0x5C) (CHR ''/'') rel_path in
      if str_in ''/ipc/'' parts then ''IPC Handlers''
      else if str_in ''/store/'' parts \<or> str_in ''/stores/'' parts then ''Stores''
      else if str_in ''/pages/'' parts then ''Pages''
      else if str_in ''/main/services/'' parts then ''Main Services''
      else if str_in ''/components/'' parts \<or> str_in ''useSmartSearchWorkflow'' parts
        then ''Renderer Components''
      else if str_in ''/preload/'' parts then ''Preload''
      else if str_in ''/shared/'' parts then ''Shared''
      else if str_in ''/renderer/'' parts then ''Renderer Other''
      else if str_in ''/main/'' parts then ''Main Other''
      else ''Other'')"

text \<open>
  The classifier in the words of the specification: an ordered list of rules, each a list
  of path fragments and a label; the label of the first rule one of whose fragments occurs
  in the path is returned, and \<open>Other\<close> when no rule matches.
\<close>

definition category_rules :: "(string list \<times> string) list" where
  "category_rules =
     [([''/ipc/''], ''IPC Handlers''),
      ([''/store/'', ''/stores/''], ''Stores''),
      ([''/pages/''], ''Pages''),
      ([''/main/services/''], ''Main Services''),
      ([''/components/'', ''useSmartSearchWorkflow''], ''Renderer Components''),
      ([''/preload/''], ''Preload''),
      ([''/shared/''], ''Shared''),
      ([''/renderer/''], ''Renderer Other''),
      ([''/main/''], ''Main Other'')]"

definition rule_matches :: "string \<Rightarrow> string list \<times> string \<Rightarrow> bool" where
  "rule_matches s rule = list_ex (\<lambda>fragment. str_in fragment s) (fst rule)"

definition first_match_spec :: "(string list \<times> string) list \<Rightarrow> string \<Rightarrow> string" where
  "first_match_spec rules s =
     (case find (rule_matches s) rules of
        None \<Rightarrow> ''Other''
      | Some rule \<Rightarrow> snd rule)"

section \<open>Files and the line counter\<close>

text \<open>
  What \<^verbatim>\<open>open(file_path, "r", encoding="utf-8", errors="ignore")\<close> and the iteration
  over the stream deliver: either an \<^verbatim>\<open>OSError\<close> (the file cannot be opened or
  read), or the bytes of the file as the decoder sees them, a sequence of pieces each of
  which is a character or an undecodable byte. With \<^verbatim>\<open>errors="ignore"\<close> the
  decoder drops the undecodable bytes and never raises.
\<close>

datatype piece = Chr char | Undecodable

datatype read_result = OSError | Stream "piece list"

fun decode_ignore :: "piece list \<Rightarrow> string" where
  "decode_ignore [] = []"
| "decode_ignore (Chr c # ps) = c # decode_ignore ps"
| "decode_ignore (Undecodable # ps) = decode_ignore ps"

text \<open>
  The number of lines the iteration over a text stream yields (universal newlines: a line
  ends at LF, at CR, or at CR LF; a last line without terminator counts when it is not
  empty). This is \<^verbatim>\<open>sum(1 for _ in f)\<close>.
\<close>

fun text_line_count :: "string \<Rightarrow> int" where
  "text_line_count [] = 0"
| "text_line_count [c] = 1"
| "text_line_count (c # d # cs) =
     (if c = CHR 0x0D \<and> d = CHR 0x0A then 1 + text_line_count cs
      else if c = CHR 0x0A \<or> c = CHR 0x0D then 1 + text_line_count (d # cs)
      else text_line_count (d # cs))"

definition count_lines :: "read_result \<Rightarrow> int" where
  "count_lines r =
     (case r of
        Stream ps \<Rightarrow> text_line_count (decode_ignore ps)
      | OSError \<Rightarrow> 0)"

section \<open>The directory tree and the scan\<close>

text \<open>
  A directory tree: a file with what reading it delivers, or a directory with its entries
  in the order in which the operating system lists them.
\<close>

datatype node = File read_result | Dir "(string \<times> node) list"

fun is_dir :: "node \<Rightarrow> bool" where
  "is_dir (Dir es) = True"
| "is_dir (File r) = False"

fun nondirs :: "(string \<times> node) list \<Rightarrow> (string \<times> read_result) list" where
  "nondirs [] = []"
| "nondirs ((n, File r) # es) = (n, r) # nondirs es"
| "nondirs ((n, Dir ds) # es) = nondirs es"

text \<open>
  \<^verbatim>\<open>os.walk(root)\<close>, top-down: for a directory it yields the directory, then walks the
  subdirectories in listing order. The caller may remove names from the yielded list of
  subdirectories before the walk descends; \<open>keep\<close> is the test the caller's loop body
  applies (\<^verbatim>\<open>dirs[:] = [d for d in dirs if ...]\<close>). A root that is not a directory
  yields nothing: the error of listing it is ignored. A directory is given as the list of
  its path components, and each yielded file name comes with what reading that file
  delivers.
\<close>

fun os_walk :: "(string \<Rightarrow> bool) \<Rightarrow> string list \<Rightarrow> node
                \<Rightarrow> (string list \<times> (string \<times> read_result) list) list" where
  "os_walk keep root (File r) = []"
| "os_walk keep root (Dir es) =
     (root, nondirs es) #
     concat (map (\<lambda>(d, sub). os_walk keep (root @ [d]) sub)
                 (filter (\<lambda>(d, sub). is_dir sub \<and> keep d) es))"

text \<open>\<^verbatim>\<open>str(filepath.relative_to(src_dir.parent))\<close>: the components from the source
  directory down to the file name, joined by the separator of the platform.\<close>

fun join_path :: "char \<Rightarrow> string list \<Rightarrow> string" where
  "join_path sep [] = []"
| "join_path sep [x] = x"
| "join_path sep (x # y # ys) = x @ sep # join_path sep (y # ys)"

definition exclude_patterns :: "string set" where
  "exclude_patterns = {''.spec.'', ''.test.'', ''__tests__'', ''__mocks__''}"

definition excluded_dirs :: "string list" where
  "excluded_dirs = [''node_modules'', ''dist'', ''.git'']"

text \<open>The body of the inner loop of \<^verbatim>\<open>scan_files\<close> for one file name: the records it
  appends (none after a \<^verbatim>\<open>continue\<close>).\<close>

definition scan_file :: "char \<Rightarrow> string list \<Rightarrow> string \<times> read_result \<Rightarrow> FileInfo list" where
  "scan_file sep root e =
     (let filename = fst e in
      if \<not> (endswith filename ''.ts'' \<or> endswith filename ''.tsx'') then []
      else if (\<exists>p\<in>exclude_patterns. str_in p filename) then []
      else
        (let rel_path = join_path sep (root @ [filename]);
             n = count_lines (snd e)
         in [\<lparr>path = rel_path, lines = n, category = categorize_file rel_path\<rparr>]))"

text \<open>The list \<^verbatim>\<open>files\<close> before it is sorted: the records in discovery order.\<close>

definition discovered :: "char \<Rightarrow> string \<Rightarrow> node \<Rightarrow> FileInfo list" where
  "discovered sep src t =
     concat (map (\<lambda>(root, filenames). concat (map (scan_file sep root) filenames))
                 (os_walk (\<lambda>d. d \<notin> set excluded_dirs) [src] t))"

text \<open>
  \<^verbatim>\<open>scan_files(src_dir)\<close>, for the source directory named \<open>src\<close> with tree \<open>t\<close>.
  \<^verbatim>\<open>files.sort(key=lambda f: f.lines, reverse=True)\<close> is a stable sort, and stays
  stable under \<^verbatim>\<open>reverse=True\<close>, so it is the stable sort on the negated key.
\<close>

definition scan_files :: "char \<Rightarrow> string \<Rightarrow> node \<Rightarrow> FileInfo list" where
  "scan_files sep src t = sort_key (\<lambda>f. - lines f) (discovered sep src t)"

text \<open>
  Notions the statements about the scan need. Every file of the tree, with the directory
  that lists it and what reading it delivers: what the walk visits when nothing is pruned.
\<close>

definition tree_files :: "string \<Rightarrow> node \<Rightarrow> (string list \<times> string \<times> read_result) list" where
  "tree_files src t =
     concat (map (\<lambda>(root, filenames). map (\<lambda>(n, r). (root, n, r)) filenames)
                 (os_walk (\<lambda>d. True) [src] t))"

text \<open>No name of the tree contains the path separator (the file system guarantees it).\<close>

fun names_ok :: "char \<Rightarrow> node \<Rightarrow> bool" where
  "names_ok sep (File r) = True"
| "names_ok sep (Dir es) = list_all (\<lambda>e. sep \<notin> set (fst e) \<and> names_ok sep (snd e)) es"

text \<open>The file name of a path: what follows the last separator.\<close>

definition basename :: "char \<Rightarrow> string \<Rightarrow> string" where
  "basename sep p = rev (takeWhile (\<lambda>c. c \<noteq> sep) (rev p))"

section \<open>The aggregator\<close>

record CategoryStats =
  name :: string
  total_files :: int
  critical :: int
  warning :: int
  good :: int
  total_lines :: int
  files :: "FileInfo list"

definition new_stats :: "string \<Rightarrow> CategoryStats" where
  "new_stats c = \<lparr>name = c, total_files = 0, critical = 0, warning = 0, good = 0,
                   total_lines = 0, files = []\<rparr>"

text \<open>
  The dictionary \<^verbatim>\<open>stats\<close> is an association list in insertion order with one entry
  per key. One round of the loop of \<^verbatim>\<open>build_stats\<close>:
\<close>

definition add_file :: "(string \<times> CategoryStats) list \<Rightarrow> FileInfo \<Rightarrow> (string \<times> CategoryStats) list" where
  "add_file stats f =
     (let stats1 = (if category f \<notin> dom (map_of stats)
                    then AList.update (category f) (new_stats (category f)) stats
                    else stats);
          cat = the (map_of stats1 (category f));
          cat1 = cat\<lparr>total_files := total_files cat + 1,
                     total_lines := total_lines cat + lines f,
                     files := files cat @ [f]\<rparr>;
          cat2 = (if lines f > CRITICAL_THRESHOLD then cat1\<lparr>critical := critical cat1 + 1\<rparr>
                  else if lines f > WARNING_THRESHOLD then cat1\<lparr>warning := warning cat1 + 1\<rparr>
                  else cat1\<lparr>good := good cat1 + 1\<rparr>)
      in AList.update (category f) cat2 stats1)"

definition build_stats :: "FileInfo list \<Rightarrow> (string \<times> CategoryStats) list" where
  "build_stats fs = foldl add_file [] fs"

text \<open>
  The statistics of a category as a function of its members: what the loop has
  accumulated for the key \<open>k\<close> once it has met the files \<open>ms\<close> of that category.
\<close>

definition stats_of :: "string \<Rightarrow> FileInfo list \<Rightarrow> CategoryStats" where
  "stats_of k ms =
     \<lparr>name = k,
      total_files = int (length ms),
      critical = int (length (filter (\<lambda>f. lines f > CRITICAL_THRESHOLD) ms)),
      warning = int (length (filter (\<lambda>f. \<not> lines f > CRITICAL_THRESHOLD \<and> lines f > WARNING_THRESHOLD) ms)),
      good = int (length (filter (\<lambda>f. \<not> lines f > CRITICAL_THRESHOLD \<and> \<not> lines f > WARNING_THRESHOLD) ms)),
      total_lines = sum_list (map lines ms),
      files = ms\<rparr>"

text \<open>The invariant of the loop of \<^verbatim>\<open>build_stats\<close>, after the files \<open>seen\<close>.\<close>

definition stats_inv :: "(string \<times> CategoryStats) list \<Rightarrow> FileInfo list \<Rightarrow> bool" where
  "stats_inv stats seen \<longleftrightarrow>
     distinct (map fst stats)
     \<and> (\<forall>k. map_of stats k =
            (if k \<in> category ` set seen
             then Some (stats_of k (filter (\<lambda>f. category f = k) seen)) else None))"

section \<open>The entry point\<close>

text \<open>
  Lines 362 to 370 of \<^verbatim>\<open>main\<close>: the source directory \<^verbatim>\<open>src\<close> of the project root
  is looked up (\<open>None\<close> when nothing of that name exists); when it does not exist the
  process exits with status 1 after the message, otherwise the scan and the statistics
  are computed.
\<close>

datatype failure = SystemExit int

definition main_scan :: "char \<Rightarrow> node option
    \<Rightarrow> failure + (FileInfo list \<times> (string \<times> CategoryStats) list)" where
  "main_scan sep src_dir =
     (case src_dir of
        None \<Rightarrow> Inl (SystemExit 1)
      | Some t \<Rightarrow>
          (let fs = scan_files sep ''src'' t;
               stats = build_stats fs
           in Inr (fs, stats)))"

section \<open>Sample trees\<close>

text \<open>A component and its test file, in one directory.\<close>

definition tree_with_spec_file :: node where
  "tree_with_spec_file =
     Dir [(''components'',
           Dir [(''Bar.tsx'', File (Stream [Chr (CHR ''x'')])),
                (''foo.spec.ts'', File (Stream [Chr (CHR ''y'')]))])]"

text \<open>A dependency directory two levels below the root.\<close>

definition tree_with_node_modules :: node where
  "tree_with_node_modules =
     Dir [(''main'',
           Dir [(''node_modules'', Dir [(''pkg'', Dir [(''index.ts'', File (Stream [Chr (CHR ''z'')]))])]),
                (''app.ts'', File (Stream [Chr (CHR ''a'')]))])]"

text \<open>A directory named like a test directory, holding a file with an ordinary name.\<close>

definition tree_with_mocks_dir :: node where
  "tree_with_mocks_dir = Dir [(''__mocks__'', Dir [(''helper.ts'', File (Stream [Chr (CHR ''h'')]))])]"

text \<open>Three files of one, two and one line, and a file that cannot be read.\<close>

definition tree_with_ties :: node where
  "tree_with_ties =
     Dir [(''a.ts'', File (Stream [Chr (CHR ''a'')])),
          (''b.ts'', File (Stream [Chr (CHR ''b''), Chr (CHR 0x0A), Chr (CHR ''b'')])),
          (''c.ts'', File (Stream [Chr (CHR ''c'')]))]"

definition tree_with_unreadable :: node where
  "tree_with_unreadable =
     Dir [(''locked.ts'', File OSError),
          (''ok.ts'', File (Stream [Chr (CHR ''k''), Chr (CHR 0x0A)]))]"

text \<open>A path written with backslashes that lies below both a \<open>pages\<close> and a \<open>store\<close> directory.\<close>

definition stores_pages_path :: string where
  "stores_pages_path = ''src'' @ CHR 0x5C # ''renderer'' @ CHR 0x5C # ''pages'' @ CHR 0x5C # ''store'' @ CHR 0x5C # ''a.ts''"

text \<open>The two records of the sample scenario.\<close>

definition sample_files :: "FileInfo list" where
  "sample_files =
     [\<lparr>path = ''src/main/services/foo.ts'', lines = 520, category = ''Main Services''\<rparr>,
      \<lparr>path = ''src/components/Bar.tsx'', lines = 150, category = ''Renderer Components''\<rparr>]"

section \<open>Auxiliary facts\<close>

lemma os_walk_root:
  "(r, fs) \<in> set (os_walk keep root t) \<Longrightarrow> \<exists>ds. r = root @ ds \<and> (\<forall>d\<in>set ds. keep d)"
proof (induction keep root t arbitrary: r fs rule: os_walk.induct)
  case (1 keep root c)
  then show ?case by simp
next
  case (2 keep root es)
  from "2.prems" consider "r = root" 
    | d sub where "(d, sub) \<in> set es" "is_dir sub" "keep d" "(r, fs) \<in> set (os_walk keep (root @ [d]) sub)"
    by auto
  then show ?case
  proof cases
    case 1
    then show ?thesis by simp
  next
    case 2
    with "2.IH" [of "(d, sub)" d sub r fs] obtain ds where "r = (root @ [d]) @ ds" "\<forall>x\<in>set ds. keep x"
      by auto
    with 2 show ?thesis by (intro exI [of _ "d # ds"]) simp
  qed
qed

lemma os_walk_keep_iff:
  "(r, fs) \<in> set (os_walk keep root t) \<longleftrightarrow>
     (r, fs) \<in> set (os_walk (\<lambda>d. True) root t) \<and> (\<forall>d\<in>set (drop (length root) r). keep d)"
proof (induction keep root t arbitrary: r fs rule: os_walk.induct)
  case (1 keep root c)
  then show ?case by simp
next
  case (2 keep root es)
  show ?case
  proof
    assume "(r, fs) \<in> set (os_walk keep root (Dir es))"
    then consider "r = root" "fs = nondirs es"
      | d sub where "(d, sub) \<in> set es" "is_dir sub" "keep d" "(r, fs) \<in> set (os_walk keep (root @ [d]) sub)"
      by auto
    then show "(r, fs) \<in> set (os_walk (\<lambda>d. True) root (Dir es)) \<and> (\<forall>d\<in>set (drop (length root) r). keep d)"
    proof cases
      case 1
      then show ?thesis by simp
    next
      case 2
      with "2.IH" [of "(d, sub)" d sub r fs]
      have a: "(r, fs) \<in> set (os_walk (\<lambda>d. True) (root @ [d]) sub)"
        and b: "\<forall>x\<in>set (drop (Suc (length root)) r). keep x" by auto
      from os_walk_root [OF a] obtain ds where r: "r = root @ d # ds" by auto
      from a 2 have "(r, fs) \<in> set (os_walk (\<lambda>d. True) root (Dir es))" by auto
      moreover from r b 2 have "\<forall>x\<in>set (drop (length root) r). keep x" by simp
      ultimately show ?thesis by blast
    qed
  next
    assume h: "(r, fs) \<in> set (os_walk (\<lambda>d. True) root (Dir es)) \<and> (\<forall>d\<in>set (drop (length root) r). keep d)"
    then consider "r = root" "fs = nondirs es"
      | d sub where "(d, sub) \<in> set es" "is_dir sub" "(r, fs) \<in> set (os_walk (\<lambda>d. True) (root @ [d]) sub)"
      by auto
    then show "(r, fs) \<in> set (os_walk keep root (Dir es))"
    proof cases
      case 1
      then show ?thesis by simp
    next
      case 2
      from os_walk_root [OF 2(3)] obtain ds where r: "r = root @ d # ds" by auto
      with h have k: "keep d" and ks: "\<forall>x\<in>set (drop (Suc (length root)) r). keep x" by auto
      with "2.IH" [of "(d, sub)" d sub r fs] 2 have "(r, fs) \<in> set (os_walk keep (root @ [d]) sub)"
        by auto
      with 2 k show ?thesis by auto
    qed
  qed
qed

lemma nondirs_names: "(n, c) \<in> set (nondirs es) \<Longrightarrow> (n, File c) \<in> set es"
  by (induction es rule: nondirs.induct) auto

lemma nondirs_complete: "(n, File c) \<in> set es \<Longrightarrow> (n, c) \<in> set (nondirs es)"
  by (induction es rule: nondirs.induct) auto

lemma os_walk_names_ok:
  "(r, fs) \<in> set (os_walk keep root t) \<Longrightarrow> names_ok sep t \<Longrightarrow> \<forall>c\<in>set root. sep \<notin> set c
   \<Longrightarrow> (\<forall>c\<in>set r. sep \<notin> set c) \<and> (\<forall>e\<in>set fs. sep \<notin> set (fst e))"
proof (induction keep root t arbitrary: r fs rule: os_walk.induct)
  case (1 keep root c)
  then show ?case by simp
next
  case (2 keep root es)
  from "2.prems"(1) consider "r = root" "fs = nondirs es"
    | d sub where "(d, sub) \<in> set es" "is_dir sub" "keep d" "(r, fs) \<in> set (os_walk keep (root @ [d]) sub)"
    by auto
  then show ?case
  proof cases
    case 1
    with "2.prems" show ?thesis
      by (auto simp: list_all_iff dest!: nondirs_names)
  next
    case 2
    with "2.prems" have "sep \<notin> set d" "names_ok sep sub" by (auto simp: list_all_iff)
    with "2.IH" [of "(d, sub)" d sub r fs] 2 "2.prems"(3) show ?thesis by auto
  qed
qed

lemma join_path_snoc: "xs \<noteq> [] \<Longrightarrow> join_path sep (xs @ [n]) = join_path sep xs @ sep # n"
  by (induction sep xs rule: join_path.induct) auto

lemma takeWhile_sep:
  "sep \<notin> set x \<Longrightarrow> takeWhile (\<lambda>c. c \<noteq> sep) (x @ sep # u) = x"
  by (induction x) auto

lemma basename_join_path:
  assumes "sep \<notin> set n" "xs \<noteq> []"
  shows "basename sep (join_path sep (xs @ [n])) = n"
proof -
  have "takeWhile (\<lambda>c. c \<noteq> sep) (rev n @ sep # rev (join_path sep xs)) = rev n"
    using assms(1) takeWhile_sep [of sep "rev n"] by simp
  with assms(2) show ?thesis by (simp add: basename_def join_path_snoc)
qed

lemma split_at_sep:
  assumes "x @ sep # u = y @ sep # v" "sep \<notin> set x" "sep \<notin> set y"
  shows "x = y \<and> u = v"
proof -
  have "takeWhile (\<lambda>c. c \<noteq> sep) (x @ sep # u) = x" using assms(2) by (rule takeWhile_sep)
  moreover have "takeWhile (\<lambda>c. c \<noteq> sep) (y @ sep # v) = y" using assms(3) by (rule takeWhile_sep)
  ultimately have "x = y" using assms(1) by simp
  with assms(1) show ?thesis by simp
qed

lemma join_path_Cons:
  "join_path sep (x # xs) = (if xs = [] then x else x @ sep # join_path sep xs)"
  by (cases xs) auto

lemma join_path_inj:
  "xs \<noteq> [] \<Longrightarrow> ys \<noteq> [] \<Longrightarrow> \<forall>x\<in>set xs. sep \<notin> set x \<Longrightarrow> \<forall>y\<in>set ys. sep \<notin> set y
   \<Longrightarrow> join_path sep xs = join_path sep ys \<Longrightarrow> xs = ys"
proof (induction xs arbitrary: ys)
  case Nil
  then show ?case by simp
next
  case (Cons x xs)
  from Cons.prems obtain y ys' where ys: "ys = y # ys'" by (cases ys) auto
  from Cons.prems ys have sx: "sep \<notin> set x" and sy: "sep \<notin> set y" by auto
  show ?case
  proof (cases "xs = []")
    case True
    show ?thesis
    proof (cases "ys' = []")
      case True
      with \<open>xs = []\<close> Cons.prems ys show ?thesis by simp
    next
      case False
      with \<open>xs = []\<close> Cons.prems(5) ys have "x = y @ sep # join_path sep ys'"
        by (simp add: join_path_Cons)
      with sx show ?thesis by auto
    qed
  next
    case False
    show ?thesis
    proof (cases "ys' = []")
      case True
      with \<open>xs \<noteq> []\<close> Cons.prems(5) ys have "y = x @ sep # join_path sep xs"
        by (simp add: join_path_Cons)
      with sy show ?thesis by auto
    next
      case f: False
      with \<open>xs \<noteq> []\<close> Cons.prems(5) ys
      have "x @ sep # join_path sep xs = y @ sep # join_path sep ys'"
        by (simp add: join_path_Cons)
      from split_at_sep [OF this sx sy] have xy: "x = y" and j: "join_path sep xs = join_path sep ys'"
        by auto
      from Cons.IH [of ys'] \<open>xs \<noteq> []\<close> f j Cons.prems ys have "xs = ys'" by auto
      with xy ys show ?thesis by simp
    qed
  qed
qed

lemma scan_file_iff:
  "f \<in> set (scan_file sep root (n, c)) \<longleftrightarrow>
     (endswith n ''.ts'' \<or> endswith n ''.tsx'') \<and> (\<forall>p\<in>exclude_patterns. \<not> str_in p n)
     \<and> f = \<lparr>path = join_path sep (root @ [n]), lines = count_lines c,
             category = categorize_file (join_path sep (root @ [n]))\<rparr>"
  by (auto simp: scan_file_def Let_def)

lemma tree_files_iff:
  "(r, n, c) \<in> set (tree_files src t) \<longleftrightarrow>
     (\<exists>fs. (r, fs) \<in> set (os_walk (\<lambda>d. True) [src] t) \<and> (n, c) \<in> set fs)"
  by (auto simp: tree_files_def)

lemma discovered_iff:
  "f \<in> set (discovered sep src t) \<longleftrightarrow>
     (\<exists>r n c. (r, n, c) \<in> set (tree_files src t) \<and> (\<forall>d\<in>set (tl r). d \<notin> set excluded_dirs)
        \<and> f \<in> set (scan_file sep r (n, c)))"
proof -
  have "f \<in> set (discovered sep src t) \<longleftrightarrow>
     (\<exists>r fs n c. (r, fs) \<in> set (os_walk (\<lambda>d. d \<notin> set excluded_dirs) [src] t) \<and> (n, c) \<in> set fs
        \<and> f \<in> set (scan_file sep r (n, c)))"
    unfolding discovered_def by fastforce
  also have "\<dots> \<longleftrightarrow> (\<exists>r fs n c. (r, fs) \<in> set (os_walk (\<lambda>d. True) [src] t)
        \<and> (\<forall>d\<in>set (tl r). d \<notin> set excluded_dirs) \<and> (n, c) \<in> set fs
        \<and> f \<in> set (scan_file sep r (n, c)))"
    by (subst os_walk_keep_iff) (simp add: drop_Suc)
  also have "\<dots> \<longleftrightarrow> (\<exists>r n c. (r, n, c) \<in> set (tree_files src t) \<and> (\<forall>d\<in>set (tl r). d \<notin> set excluded_dirs)
        \<and> f \<in> set (scan_file sep r (n, c)))"
    unfolding tree_files_iff by blast
  finally show ?thesis .
qed

lemma set_scan_files: "set (scan_files sep src t) = set (discovered sep src t)"
  by (simp add: scan_files_def)

lemma tree_files_names:
  assumes "(r, n, c) \<in> set (tree_files src t)" "names_ok sep t" "sep \<notin> set src"
  shows "r \<noteq> [] \<and> hd r = src \<and> (\<forall>x\<in>set r. sep \<notin> set x) \<and> sep \<notin> set n"
proof -
  from assms(1) obtain fs where w: "(r, fs) \<in> set (os_walk (\<lambda>d. True) [src] t)" and m: "(n, c) \<in> set fs"
    unfolding tree_files_iff by blast
  from os_walk_root [OF w] have "r \<noteq> [] \<and> hd r = src" by auto
  moreover from os_walk_names_ok [OF w assms(2)] assms(3) m
  have "(\<forall>x\<in>set r. sep \<notin> set x) \<and> sep \<notin> set n" by fastforce
  ultimately show ?thesis by blast
qed

lemma tree_files_path_inj:
  assumes "(r, n, c) \<in> set (tree_files src t)" "(r', n', c') \<in> set (tree_files src t)"
    "names_ok sep t" "sep \<notin> set src" "join_path sep (r @ [n]) = join_path sep (r' @ [n'])"
  shows "r = r' \<and> n = n'"
proof -
  from tree_files_names [OF assms(1,3,4)] tree_files_names [OF assms(2,3,4)]
  have "\<forall>x\<in>set (r @ [n]). sep \<notin> set x" "\<forall>x\<in>set (r' @ [n']). sep \<notin> set x" by auto
  from join_path_inj [OF _ _ this assms(5)] show ?thesis by simp
qed

lemma str_in_replace_char:
  assumes "str_in u p" and "a \<notin> set u"
  shows "str_in u (replace_char a b p)"
proof -
  let ?f = "\<lambda>c. if c = a then b else c"
  from assms(1) obtain xs ys where p: "p = xs @ u @ ys" by (auto simp: str_in_def sublist_def)
  from assms(2) have "map ?f u = u" by (induction u) auto
  with p have "replace_char a b p = map ?f xs @ u @ map ?f ys"
    by (simp add: replace_char_def)
  then show ?thesis unfolding str_in_def sublist_def by blast
qed

lemma categorize_file_refines:
  "categorize_file p = first_match_spec category_rules (replace_char (CHR 0x5C) (CHR ''/'') p)"
  by (simp add: categorize_file_def first_match_spec_def category_rules_def rule_matches_def Let_def)

lemma first_match_spec_index:
  assumes "i < length rules" "rule_matches s (rules ! i)" "\<forall>j<i. \<not> rule_matches s (rules ! j)"
  shows "first_match_spec rules s = snd (rules ! i)"
proof -
  have "find (rule_matches s) rules = Some (rules ! i)"
    unfolding find_Some_iff using assms by blast
  then show ?thesis by (simp add: first_match_spec_def)
qed

lemma first_match_spec_none:
  assumes "\<forall>r\<in>set rules. \<not> rule_matches s r"
  shows "first_match_spec rules s = ''Other''"
proof -
  have "find (rule_matches s) rules = None"
    unfolding find_None_iff using assms by blast
  then show ?thesis by (simp add: first_match_spec_def)
qed

lemma new_stats_stats_of: "new_stats k = stats_of k []"
  by (simp add: new_stats_def stats_of_def)

lemma map_of_add_file:
  "map_of (add_file stats f) =
     (map_of stats)(category f \<mapsto>
        (let cat = (case map_of stats (category f) of None \<Rightarrow> new_stats (category f) | Some c \<Rightarrow> c);
             cat1 = cat\<lparr>total_files := total_files cat + 1,
                     total_lines := total_lines cat + lines f,
                     files := files cat @ [f]\<rparr>
         in if lines f > CRITICAL_THRESHOLD then cat1\<lparr>critical := critical cat1 + 1\<rparr>
            else if lines f > WARNING_THRESHOLD then cat1\<lparr>warning := warning cat1 + 1\<rparr>
            else cat1\<lparr>good := good cat1 + 1\<rparr>))"
  by (cases "map_of stats (category f)")
     (auto simp: add_file_def Let_def update_conv' domIff)

lemma distinct_add_file:
  "distinct (map fst stats) \<Longrightarrow> distinct (map fst (add_file stats f))"
  by (simp add: add_file_def Let_def distinct_update)

lemma stats_of_snoc:
  "stats_of k (ms @ [f]) =
     (let cat = stats_of k ms;
          cat1 = cat\<lparr>total_files := total_files cat + 1,
                     total_lines := total_lines cat + lines f,
                     files := files cat @ [f]\<rparr>
      in if lines f > CRITICAL_THRESHOLD then cat1\<lparr>critical := critical cat1 + 1\<rparr>
         else if lines f > WARNING_THRESHOLD then cat1\<lparr>warning := warning cat1 + 1\<rparr>
         else cat1\<lparr>good := good cat1 + 1\<rparr>)"
  by (simp add: stats_of_def Let_def)

lemma stats_inv_add_file:
  assumes "stats_inv stats seen"
  shows "stats_inv (add_file stats f) (seen @ [f])"
proof -
  from assms have d: "distinct (map fst stats)"
    and m: "\<And>k. map_of stats k =
            (if k \<in> category ` set seen
             then Some (stats_of k (filter (\<lambda>f. category f = k) seen)) else None)"
    by (simp_all add: stats_inv_def)
  have empty: "filter (\<lambda>g. category g = category f) seen = []" if "category f \<notin> category ` set seen"
    using that by (auto simp: filter_empty_conv image_iff)
  have c0: "(case map_of stats (category f) of None \<Rightarrow> new_stats (category f) | Some c \<Rightarrow> c)
          = stats_of (category f) (filter (\<lambda>g. category g = category f) seen)"
    using empty by (simp add: m new_stats_stats_of)
  have "map_of (add_file stats f) k =
            (if k \<in> category ` set (seen @ [f])
             then Some (stats_of k (filter (\<lambda>f. category f = k) (seen @ [f]))) else None)" for k
  proof (cases "k = category f")
    case True
    then show ?thesis
      unfolding map_of_add_file c0 by (simp add: stats_of_snoc Let_def)
  next
    case False
    then show ?thesis
      unfolding map_of_add_file by (auto simp: m)
  qed
  with distinct_add_file [OF d] show ?thesis by (simp add: stats_inv_def)
qed

lemma stats_inv_build_stats: "stats_inv (build_stats fs) fs"
proof (induction fs rule: rev_induct)
  case Nil
  show ?case by (simp add: build_stats_def stats_inv_def)
next
  case (snoc f fs)
  then show ?case by (simp add: build_stats_def stats_inv_add_file)
qed

lemma build_stats_entry:
  assumes "(k, c) \<in> set (build_stats fs)"
  shows "k \<in> category ` set fs \<and> c = stats_of k (filter (\<lambda>f. category f = k) fs)"
proof -
  from stats_inv_build_stats [of fs] have d: "distinct (map fst (build_stats fs))"
    and m: "map_of (build_stats fs) k =
            (if k \<in> category ` set fs
             then Some (stats_of k (filter (\<lambda>f. category f = k) fs)) else None)"
    by (simp_all add: stats_inv_def)
  from d assms have "map_of (build_stats fs) k = Some c" by simp
  with m show ?thesis by (simp split: if_splits)
qed

lemma build_stats_complete:
  assumes "f \<in> set fs"
  shows "(category f, stats_of (category f) (filter (\<lambda>g. category g = category f) fs)) \<in> set (build_stats fs)"
proof -
  from stats_inv_build_stats [of fs]
  have "map_of (build_stats fs) (category f) =
            (if category f \<in> category ` set fs
             then Some (stats_of (category f) (filter (\<lambda>g. category g = category f) fs)) else None)"
    by (simp add: stats_inv_def)
  with assms have "map_of (build_stats fs) (category f) =
      Some (stats_of (category f) (filter (\<lambda>g. category g = category f) fs))" by simp
  then show ?thesis by (rule map_of_SomeD)
qed

lemma partition_by_key:
  "distinct ks \<Longrightarrow> g ` set fs \<subseteq> set ks
   \<Longrightarrow> mset (concat (map (\<lambda>k. filter (\<lambda>f. g f = k) fs) ks)) = mset fs"
proof (induction ks arbitrary: fs)
  case Nil
  then show ?case by simp
next
  case (Cons k ks)
  let ?rest = "filter (\<lambda>f. g f \<noteq> k) fs"
  from Cons.prems have sub: "g ` set ?rest \<subseteq> set ks" by auto
  from Cons.prems have "k \<notin> set ks" "distinct ks" by simp_all
  then have e: "map (\<lambda>k'. filter (\<lambda>f. g f = k') fs) ks = map (\<lambda>k'. filter (\<lambda>f. g f = k') ?rest) ks"
    by (intro map_cong refl filter_cong [THEN trans [OF _ filter_filter [symmetric]]]) auto
  have "mset (concat (map (\<lambda>k'. filter (\<lambda>f. g f = k') ?rest) ks)) = mset ?rest"
    using \<open>distinct ks\<close> sub by (rule Cons.IH)
  then have "mset (concat (map (\<lambda>k'. filter (\<lambda>f. g f = k') fs) ks)) = mset ?rest"
    by (simp only: e)
  then have "mset (concat (map (\<lambda>k'. filter (\<lambda>f. g f = k') fs) (k # ks)))
           = mset (filter (\<lambda>f. g f = k) fs) + mset (filter (\<lambda>f. \<not> g f = k) fs)" by simp
  also have "\<dots> = mset fs" by (simp only: mset_filter multiset_partition [symmetric])
  finally show ?case .
qed

lemma length_three_way:
  "length ms = length (filter (\<lambda>f. A f) ms) + length (filter (\<lambda>f. \<not> A f \<and> B f) ms)
             + length (filter (\<lambda>f. \<not> A f \<and> \<not> B f) ms)"
  by (induction ms) auto

lemma build_stats_members:
  "map (\<lambda>e. files (snd e)) (build_stats fs)
     = map (\<lambda>k. filter (\<lambda>f. category f = k) fs) (map fst (build_stats fs))"
proof -
  have "files (snd e) = filter (\<lambda>f. category f = fst e) fs" if "e \<in> set (build_stats fs)" for e
  proof -
    obtain k c where e: "e = (k, c)" by (cases e)
    with that build_stats_entry [of k c fs] show ?thesis by (simp add: stats_of_def)
  qed
  then show ?thesis by (simp add: comp_def)
qed

lemma build_stats_keys:
  "distinct (map fst (build_stats fs)) \<and> category ` set fs \<subseteq> set (map fst (build_stats fs))"
proof
  from stats_inv_build_stats [of fs] show "distinct (map fst (build_stats fs))"
    by (simp add: stats_inv_def)
  show "category ` set fs \<subseteq> set (map fst (build_stats fs))"
  proof
    fix k assume "k \<in> category ` set fs"
    then obtain f where "f \<in> set fs" "k = category f" by auto
    with build_stats_complete [of f fs] show "k \<in> set (map fst (build_stats fs))"
      by (auto intro: rev_image_eqI)
  qed
qed

lemma build_stats_mset:
  "mset (concat (map (\<lambda>e. files (snd e)) (build_stats fs))) = mset fs"
  unfolding build_stats_members using build_stats_keys [of fs]
  by (intro partition_by_key) simp_all

lemma sum_list_int_length:
  "sum_list (map (\<lambda>x. int (length (h x))) xs) = int (length (concat (map h xs)))"
  by (induction xs) simp_all

lemma build_stats_total:
  "sum_list (map (\<lambda>e. total_files (snd e)) (build_stats fs)) = int (length fs)"
proof -
  have "total_files (snd e) = int (length (files (snd e)))" if "e \<in> set (build_stats fs)" for e
  proof -
    obtain k c where e: "e = (k, c)" by (cases e)
    with that build_stats_entry [of k c fs] show ?thesis by (simp add: stats_of_def)
  qed
  then have "sum_list (map (\<lambda>e. total_files (snd e)) (build_stats fs))
           = sum_list (map (\<lambda>e. int (length (files (snd e)))) (build_stats fs))"
    by (intro arg_cong [where f = sum_list] map_cong refl)
  also have "\<dots> = int (length (concat (map (\<lambda>e. files (snd e)) (build_stats fs))))"
    by (rule sum_list_int_length)
  also have "\<dots> = int (size (mset (concat (map (\<lambda>e. files (snd e)) (build_stats fs)))))"
    by simp
  also have "\<dots> = int (length fs)" unfolding build_stats_mset by simp
  finally show ?thesis .
qed

lemma build_stats_unique:
  assumes "f \<in> set fs"
  shows "\<exists>!e. e \<in> set (build_stats fs) \<and> f \<in> set (files (snd e))"
proof (rule ex1I)
  let ?e = "(category f, stats_of (category f) (filter (\<lambda>g. category g = category f) fs))"
  from build_stats_complete [OF assms] assms
  show "?e \<in> set (build_stats fs) \<and> f \<in> set (files (snd ?e))" by (simp add: stats_of_def)
  fix e assume h: "e \<in> set (build_stats fs) \<and> f \<in> set (files (snd e))"
  obtain k c where e: "e = (k, c)" by (cases e)
  with h build_stats_entry [of k c fs] have c: "c = stats_of k (filter (\<lambda>g. category g = k) fs)" by simp
  with h e have "f \<in> set (filter (\<lambda>g. category g = k) fs)" by (simp add: stats_of_def)
  then have "k = category f" by simp
  with c e show "e = ?e" by simp
qed

lemma stats_of_props:
  "name (stats_of k ms) = k \<and> files (stats_of k ms) = ms
   \<and> total_files (stats_of k ms) = critical (stats_of k ms) + warning (stats_of k ms) + good (stats_of k ms)
   \<and> total_files (stats_of k ms) = int (length ms)
   \<and> total_lines (stats_of k ms) = sum_list (map lines ms)
   \<and> critical (stats_of k ms) = int (length (filter (\<lambda>f. status f = ''critical'') ms))
   \<and> warning (stats_of k ms) = int (length (filter (\<lambda>f. status f = ''warning'') ms))
   \<and> good (stats_of k ms) = int (length (filter (\<lambda>f. status f = ''good'') ms))"
proof -
  have c: "(\<lambda>f. status f = ''critical'') = (\<lambda>f. lines f > CRITICAL_THRESHOLD)"
    by (rule ext) (simp add: status_def)
  have w: "(\<lambda>f. status f = ''warning'') = (\<lambda>f. \<not> lines f > CRITICAL_THRESHOLD \<and> lines f > WARNING_THRESHOLD)"
    by (rule ext) (simp add: status_def)
  have g: "(\<lambda>f. status f = ''good'') = (\<lambda>f. \<not> lines f > CRITICAL_THRESHOLD \<and> \<not> lines f > WARNING_THRESHOLD)"
    by (rule ext) (simp add: status_def)
  have t: "int (length ms) = int (length (filter (\<lambda>f. lines f > CRITICAL_THRESHOLD) ms))
        + int (length (filter (\<lambda>f. \<not> lines f > CRITICAL_THRESHOLD \<and> lines f > WARNING_THRESHOLD) ms))
        + int (length (filter (\<lambda>f. \<not> lines f > CRITICAL_THRESHOLD \<and> \<not> lines f > WARNING_THRESHOLD) ms))"
    using length_three_way [of ms "\<lambda>f. lines f > CRITICAL_THRESHOLD" "\<lambda>f. lines f > WARNING_THRESHOLD"]
    by linarith
  show ?thesis unfolding c w g using t by (simp add: stats_of_def)
qed

lemma sample_build_stats:
  "build_stats sample_files =
     [(''Main Services'',
       \<lparr>name = ''Main Services'', total_files = 1, critical = 1, warning = 0, good = 0,
        total_lines = 520,
        files = [\<lparr>path = ''src/main/services/foo.ts'', lines = 520, category = ''Main Services''\<rparr>]\<rparr>),
      (''Renderer Components'',
       \<lparr>name = ''Renderer Components'', total_files = 1, critical = 0, warning = 0, good = 1,
        total_lines = 150,
        files = [\<lparr>path = ''src/components/Bar.tsx'', lines = 150, category = ''Renderer Components''\<rparr>]\<rparr>)]"
  by (simp add: sample_files_def build_stats_def add_file_def new_stats_def Let_def
        CRITICAL_THRESHOLD_def WARNING_THRESHOLD_def)

section \<open>The status of a file\<close>

text \<open>
  C1. The status is decided by the line count and the two thresholds alone
  (warning = 400, critical = 500): it is \<open>critical\<close> exactly above the critical
  threshold, \<open>warning\<close> exactly above the warning threshold and up to the critical one,
  \<open>good\<close> exactly up to the warning threshold. The three names are different strings
  and the three ranges partition the integers, so every line count has exactly one status.
\<close>

theorem status_partition:
  "WARNING_THRESHOLD = 400 \<and> CRITICAL_THRESHOLD = 500
   \<and> (status f = ''critical'' \<longleftrightarrow> lines f > CRITICAL_THRESHOLD)
   \<and> (status f = ''warning'' \<longleftrightarrow> WARNING_THRESHOLD < lines f \<and> lines f \<le> CRITICAL_THRESHOLD)
   \<and> (status f = ''good'' \<longleftrightarrow> \<not> lines f > CRITICAL_THRESHOLD
         \<and> \<not> (WARNING_THRESHOLD < lines f \<and> lines f \<le> CRITICAL_THRESHOLD))
   \<and> (status f = ''critical'' \<or> status f = ''warning'' \<or> status f = ''good'')
   \<and> \<not> (status f = ''critical'' \<and> status f = ''warning'')
   \<and> \<not> (status f = ''critical'' \<and> status f = ''good'')
   \<and> \<not> (status f = ''warning'' \<and> status f = ''good'')
   \<and> (lines g = lines f \<longrightarrow> status g = status f)"
  by (simp add: status_def CRITICAL_THRESHOLD_def WARNING_THRESHOLD_def)

theorem status_partition_witness:
  "status \<lparr>path = ''src/main/services/foo.ts'', lines = 520, category = ''Main Services''\<rparr> = ''critical''
   \<and> status \<lparr>path = ''src/d.ts'', lines = 520, category = ''Other''\<rparr> = ''critical''"
  using status_partition [of "\<lparr>path = ''src/main/services/foo.ts'', lines = 520, category = ''Main Services''\<rparr>"
                             "\<lparr>path = ''src/d.ts'', lines = 520, category = ''Other''\<rparr>"]
  by (simp add: CRITICAL_THRESHOLD_def)

section \<open>The root directory\<close>

text \<open>
  C2. The scan is to fail with a configuration error whenever the root directory does not
  exist or is not a directory. The entry point tests existence only. A missing root ends
  the run with exit status 1 and no output; a root that exists as a regular file passes
  the test, the walk over it yields nothing, and the run delivers an empty file list and
  empty statistics instead of the error.
\<close>

theorem main_scan_root_not_a_directory:
  "main_scan sep None = Inl (SystemExit 1)
   \<and> main_scan sep (Some (File r)) = Inr ([], [])"
  by (simp add: main_scan_def scan_files_def discovered_def build_stats_def)

section \<open>File eligibility\<close>

text \<open>
  C3. In a tree whose names are free of the separator, the file name of every record of
  the scan ends with \<open>.ts\<close> or \<open>.tsx\<close> and contains none of \<open>.spec.\<close>, \<open>.test.\<close>,
  \<open>__tests__\<close>, \<open>__mocks__\<close>; and no file of the tree whose name contains one of the four
  has its path in the output, whatever its extension.
\<close>

theorem scan_files_eligible:
  assumes "names_ok sep t" and "sep \<notin> set src"
  shows "(\<forall>f\<in>set (scan_files sep src t).
            (endswith (basename sep (path f)) ''.ts'' \<or> endswith (basename sep (path f)) ''.tsx'')
            \<and> \<not> str_in ''.spec.'' (basename sep (path f))
            \<and> \<not> str_in ''.test.'' (basename sep (path f))
            \<and> \<not> str_in ''__tests__'' (basename sep (path f))
            \<and> \<not> str_in ''__mocks__'' (basename sep (path f)))
       \<and> (\<forall>(r, n, c)\<in>set (tree_files src t).
            str_in ''.spec.'' n \<or> str_in ''.test.'' n \<or> str_in ''__tests__'' n \<or> str_in ''__mocks__'' n
            \<longrightarrow> join_path sep (r @ [n]) \<notin> path ` set (scan_files sep src t))"
proof (rule conjI; rule ballI)
  fix f assume "f \<in> set (scan_files sep src t)"
  then obtain r n c where e: "(r, n, c) \<in> set (tree_files src t)"
    and f: "f \<in> set (scan_file sep r (n, c))"
    unfolding set_scan_files discovered_iff by blast
  from tree_files_names [OF e assms] have "basename sep (join_path sep (r @ [n])) = n"
    by (simp add: basename_join_path)
  with f show "(endswith (basename sep (path f)) ''.ts'' \<or> endswith (basename sep (path f)) ''.tsx'')
            \<and> \<not> str_in ''.spec.'' (basename sep (path f))
            \<and> \<not> str_in ''.test.'' (basename sep (path f))
            \<and> \<not> str_in ''__tests__'' (basename sep (path f))
            \<and> \<not> str_in ''__mocks__'' (basename sep (path f))"
    unfolding scan_file_iff by (simp add: exclude_patterns_def)
next
  fix e assume e: "e \<in> set (tree_files src t)"
  obtain r n c where rnc: "e = (r, n, c)" by (cases e)
  have "str_in ''.spec.'' n \<or> str_in ''.test.'' n \<or> str_in ''__tests__'' n \<or> str_in ''__mocks__'' n
            \<longrightarrow> join_path sep (r @ [n]) \<notin> path ` set (scan_files sep src t)"
  proof
    assume x: "str_in ''.spec.'' n \<or> str_in ''.test.'' n \<or> str_in ''__tests__'' n \<or> str_in ''__mocks__'' n"
    show "join_path sep (r @ [n]) \<notin> path ` set (scan_files sep src t)"
    proof
      assume "join_path sep (r @ [n]) \<in> path ` set (scan_files sep src t)"
      then obtain f where "f \<in> set (scan_files sep src t)" and pf: "path f = join_path sep (r @ [n])"
        by auto
      then obtain r' n' c' where e': "(r', n', c') \<in> set (tree_files src t)"
        and f: "f \<in> set (scan_file sep r' (n', c'))"
        unfolding set_scan_files discovered_iff by blast
      from f pf have j: "join_path sep (r @ [n]) = join_path sep (r' @ [n'])"
        and ok: "\<forall>p\<in>exclude_patterns. \<not> str_in p n'"
        unfolding scan_file_iff by auto
      from e rnc have "(r, n, c) \<in> set (tree_files src t)" by simp
      from tree_files_path_inj [OF this e' assms j] have "n = n'" by simp
      with ok x show False by (simp add: exclude_patterns_def)
    qed
  qed
  with rnc show "case e of (r, n, c) \<Rightarrow>
            str_in ''.spec.'' n \<or> str_in ''.test.'' n \<or> str_in ''__tests__'' n \<or> str_in ''__mocks__'' n
            \<longrightarrow> join_path sep (r @ [n]) \<notin> path ` set (scan_files sep src t)"
    by simp
qed


theorem scan_files_eligible_witness:
  "names_ok (CHR ''/'') tree_with_spec_file \<and> CHR ''/'' \<notin> set ''src''
   \<and> ([''src'', ''components''], ''foo.spec.ts'', Stream [Chr (CHR ''y'')])
        \<in> set (tree_files ''src'' tree_with_spec_file)
   \<and> str_in ''.spec.'' ''foo.spec.ts''
   \<and> join_path (CHR ''/'') ([''src'', ''components''] @ [''foo.spec.ts''])
        \<notin> path ` set (scan_files (CHR ''/'') ''src'' tree_with_spec_file)
   \<and> \<lparr>path = ''src/components/Bar.tsx'', lines = 1, category = ''Renderer Components''\<rparr>
        \<in> set (scan_files (CHR ''/'') ''src'' tree_with_spec_file)
   \<and> endswith (basename (CHR ''/'') ''src/components/Bar.tsx'') ''.tsx''"
proof -
  let ?t = tree_with_spec_file
  let ?f = "\<lparr>path = ''src/components/Bar.tsx'', lines = 1, category = ''Renderer Components''\<rparr>"
  have h1: "names_ok (CHR ''/'') ?t" by (simp add: tree_with_spec_file_def)
  have h2: "CHR ''/'' \<notin> set ''src''" by simp
  have m: "([''src'', ''components''], ''foo.spec.ts'', Stream [Chr (CHR ''y'')]) \<in> set (tree_files ''src'' ?t)"
    by (simp add: tree_with_spec_file_def tree_files_def)
  have s: "str_in ''.spec.'' ''foo.spec.ts''" by (simp add: str_in_def sublist_Cons_right)
  have o: "?f \<in> set (scan_files (CHR ''/'') ''src'' ?t)"
    unfolding tree_with_spec_file_def by code_simp
  note th = scan_files_eligible [OF h1 h2]
  from th m s have x: "join_path (CHR ''/'') ([''src'', ''components''] @ [''foo.spec.ts''])
        \<notin> path ` set (scan_files (CHR ''/'') ''src'' ?t)" by blast
  from th o have "endswith (basename (CHR ''/'') (path ?f)) ''.ts'' \<or> endswith (basename (CHR ''/'') (path ?f)) ''.tsx''"
    by blast
  moreover have "\<not> endswith (basename (CHR ''/'') (path ?f)) ''.ts''"
    by (simp add: endswith_def basename_def suffix_to_prefix)
  ultimately have y: "endswith (basename (CHR ''/'') ''src/components/Bar.tsx'') ''.tsx''" by simp
  from h1 h2 m s x o y show ?thesis by blast
qed

section \<open>Directory pruning\<close>

text \<open>
  C4. The walk of the scan never visits a directory that lies in or below a directory
  named \<open>node_modules\<close>, \<open>dist\<close> or \<open>.git\<close>, at any depth below the root; and no file
  of the tree with such a directory among its ancestors below the root has its path in
  the output.
\<close>

theorem excluded_dirs_pruned:
  assumes "names_ok sep t" and "sep \<notin> set src"
  shows "(\<forall>(r, fs)\<in>set (os_walk (\<lambda>d. d \<notin> set excluded_dirs) [src] t).
            \<forall>d\<in>set (tl r). d \<noteq> ''node_modules'' \<and> d \<noteq> ''dist'' \<and> d \<noteq> ''.git'')
       \<and> (\<forall>(r, n, c)\<in>set (tree_files src t).
            (\<exists>d\<in>set (tl r). d = ''node_modules'' \<or> d = ''dist'' \<or> d = ''.git'')
            \<longrightarrow> join_path sep (r @ [n]) \<notin> path ` set (scan_files sep src t))"
proof (rule conjI; rule ballI)
  fix x assume x: "x \<in> set (os_walk (\<lambda>d. d \<notin> set excluded_dirs) [src] t)"
  obtain r fs where rfs: "x = (r, fs)" by (cases x)
  from os_walk_root [of r fs "\<lambda>d. d \<notin> set excluded_dirs" "[src]" t] x rfs
  obtain ds where "r = [src] @ ds" "\<forall>d\<in>set ds. d \<notin> set excluded_dirs" by blast
  then have "\<forall>d\<in>set (tl r). d \<noteq> ''node_modules'' \<and> d \<noteq> ''dist'' \<and> d \<noteq> ''.git''"
    by (auto simp: excluded_dirs_def)
  with rfs show "case x of (r, fs) \<Rightarrow>
       \<forall>d\<in>set (tl r). d \<noteq> ''node_modules'' \<and> d \<noteq> ''dist'' \<and> d \<noteq> ''.git''"
    by simp
next
  fix e assume e: "e \<in> set (tree_files src t)"
  obtain r n c where rnc: "e = (r, n, c)" by (cases e)
  have "(\<exists>d\<in>set (tl r). d = ''node_modules'' \<or> d = ''dist'' \<or> d = ''.git'')
            \<longrightarrow> join_path sep (r @ [n]) \<notin> path ` set (scan_files sep src t)"
  proof
    assume x: "\<exists>d\<in>set (tl r). d = ''node_modules'' \<or> d = ''dist'' \<or> d = ''.git''"
    show "join_path sep (r @ [n]) \<notin> path ` set (scan_files sep src t)"
    proof
      assume "join_path sep (r @ [n]) \<in> path ` set (scan_files sep src t)"
      then obtain f where "f \<in> set (scan_files sep src t)" and pf: "path f = join_path sep (r @ [n])"
        by auto
      then obtain r' n' c' where e': "(r', n', c') \<in> set (tree_files src t)"
        and k: "\<forall>d\<in>set (tl r'). d \<notin> set excluded_dirs"
        and f: "f \<in> set (scan_file sep r' (n', c'))"
        unfolding set_scan_files discovered_iff by blast
      from f pf have j: "join_path sep (r @ [n]) = join_path sep (r' @ [n'])"
        unfolding scan_file_iff by auto
      from e rnc have "(r, n, c) \<in> set (tree_files src t)" by simp
      from tree_files_path_inj [OF this e' assms j] have "r = r'" by simp
      with k x show False by (auto simp: excluded_dirs_def)
    qed
  qed
  with rnc show "case e of (r, n, c) \<Rightarrow>
            (\<exists>d\<in>set (tl r). d = ''node_modules'' \<or> d = ''dist'' \<or> d = ''.git'')
            \<longrightarrow> join_path sep (r @ [n]) \<notin> path ` set (scan_files sep src t)"
    by simp
qed

theorem excluded_dirs_pruned_witness:
  "names_ok (CHR ''/'') tree_with_node_modules \<and> CHR ''/'' \<notin> set ''src''
   \<and> ([''src'', ''main'', ''node_modules'', ''pkg''], ''index.ts'', Stream [Chr (CHR ''z'')])
        \<in> set (tree_files ''src'' tree_with_node_modules)
   \<and> ''node_modules'' \<in> set (tl [''src'', ''main'', ''node_modules'', ''pkg''])
   \<and> join_path (CHR ''/'') ([''src'', ''main'', ''node_modules'', ''pkg''] @ [''index.ts''])
        \<notin> path ` set (scan_files (CHR ''/'') ''src'' tree_with_node_modules)
   \<and> ([''src'', ''main''], [(''app.ts'', Stream [Chr (CHR ''a'')])])
        \<in> set (os_walk (\<lambda>d. d \<notin> set excluded_dirs) [''src''] tree_with_node_modules)
   \<and> list_all (\<lambda>d. d \<noteq> ''node_modules'' \<and> d \<noteq> ''dist'' \<and> d \<noteq> ''.git'') (tl [''src'', ''main''])"
proof -
  let ?t = tree_with_node_modules
  have h1: "names_ok (CHR ''/'') ?t" by (simp add: tree_with_node_modules_def)
  have h2: "CHR ''/'' \<notin> set ''src''" by simp
  have m: "([''src'', ''main'', ''node_modules'', ''pkg''], ''index.ts'', Stream [Chr (CHR ''z'')])
        \<in> set (tree_files ''src'' ?t)"
    by (simp add: tree_with_node_modules_def tree_files_def)
  have d: "''node_modules'' \<in> set (tl [''src'', ''main'', ''node_modules'', ''pkg''])" by simp
  have w: "([''src'', ''main''], [(''app.ts'', Stream [Chr (CHR ''a'')])])
        \<in> set (os_walk (\<lambda>d. d \<notin> set excluded_dirs) [''src''] ?t)"
    by (simp add: tree_with_node_modules_def excluded_dirs_def)
  note th = excluded_dirs_pruned [OF h1 h2]
  from th have a: "\<forall>(r, n, c)\<in>set (tree_files ''src'' ?t).
            (\<exists>d\<in>set (tl r). d = ''node_modules'' \<or> d = ''dist'' \<or> d = ''.git'')
            \<longrightarrow> join_path (CHR ''/'') (r @ [n]) \<notin> path ` set (scan_files (CHR ''/'') ''src'' ?t)"
    by (rule conjunct2)
  from th have b: "\<forall>(r, fs)\<in>set (os_walk (\<lambda>d. d \<notin> set excluded_dirs) [''src''] ?t).
            \<forall>d\<in>set (tl r). d \<noteq> ''node_modules'' \<and> d \<noteq> ''dist'' \<and> d \<noteq> ''.git''"
    by (rule conjunct1)
  from bspec [OF a m] d
  have x: "join_path (CHR ''/'') ([''src'', ''main'', ''node_modules'', ''pkg''] @ [''index.ts''])
        \<notin> path ` set (scan_files (CHR ''/'') ''src'' ?t)" by simp
  from bspec [OF b w]
  have "\<forall>d\<in>set (tl [''src'', ''main'']). d \<noteq> ''node_modules'' \<and> d \<noteq> ''dist'' \<and> d \<noteq> ''.git''"
    unfolding prod.case .
  then have y: "list_all (\<lambda>d. d \<noteq> ''node_modules'' \<and> d \<noteq> ''dist'' \<and> d \<noteq> ''.git'') (tl [''src'', ''main''])"
    unfolding list_all_iff .
  from h1 h2 m d x w y show ?thesis by (intro conjI)
qed

section \<open>The statistics\<close>

text \<open>
  C5. The statistics have one entry per category key. The members lists of all entries
  together are the input files as a multiset, every input file is a member of exactly one
  entry, and the file counts add up to the number of input files. Each entry carries its
  key as name, its members are the input files of that category in input order, its file
  count is the number of members and the sum of its three status counters, its line total
  is the sum of the members' line counts, and each status counter counts the members of
  that status.
\<close>

theorem build_stats_totality:
  "distinct (map fst (build_stats fs))
   \<and> mset (concat (map (\<lambda>e. files (snd e)) (build_stats fs))) = mset fs
   \<and> (\<forall>f\<in>set fs. \<exists>!e. e \<in> set (build_stats fs) \<and> f \<in> set (files (snd e)))
   \<and> sum_list (map (\<lambda>e. total_files (snd e)) (build_stats fs)) = int (length fs)
   \<and> (\<forall>(k, c)\<in>set (build_stats fs).
         name c = k
         \<and> files c = filter (\<lambda>f. category f = k) fs
         \<and> total_files c = critical c + warning c + good c
         \<and> total_files c = int (length (files c))
         \<and> total_lines c = sum_list (map lines (files c))
         \<and> critical c = int (length (filter (\<lambda>f. status f = ''critical'') (files c)))
         \<and> warning c = int (length (filter (\<lambda>f. status f = ''warning'') (files c)))
         \<and> good c = int (length (filter (\<lambda>f. status f = ''good'') (files c))))"
proof (intro conjI)
  show "distinct (map fst (build_stats fs))" using build_stats_keys [of fs] by simp
  show "mset (concat (map (\<lambda>e. files (snd e)) (build_stats fs))) = mset fs"
    by (rule build_stats_mset)
  show "\<forall>f\<in>set fs. \<exists>!e. e \<in> set (build_stats fs) \<and> f \<in> set (files (snd e))"
    by (rule ballI) (rule build_stats_unique)
  show "sum_list (map (\<lambda>e. total_files (snd e)) (build_stats fs)) = int (length fs)"
    by (rule build_stats_total)
  show "\<forall>(k, c)\<in>set (build_stats fs).
         name c = k
         \<and> files c = filter (\<lambda>f. category f = k) fs
         \<and> total_files c = critical c + warning c + good c
         \<and> total_files c = int (length (files c))
         \<and> total_lines c = sum_list (map lines (files c))
         \<and> critical c = int (length (filter (\<lambda>f. status f = ''critical'') (files c)))
         \<and> warning c = int (length (filter (\<lambda>f. status f = ''warning'') (files c)))
         \<and> good c = int (length (filter (\<lambda>f. status f = ''good'') (files c)))"
  proof (rule ballI)
    fix e assume e: "e \<in> set (build_stats fs)"
    obtain k c where kc: "e = (k, c)" by (cases e)
    with e build_stats_entry [of k c fs]
    have c: "c = stats_of k (filter (\<lambda>f. category f = k) fs)" by simp
    from stats_of_props [of k "filter (\<lambda>f. category f = k) fs"]
    have "name c = k
         \<and> files c = filter (\<lambda>f. category f = k) fs
         \<and> total_files c = critical c + warning c + good c
         \<and> total_files c = int (length (files c))
         \<and> total_lines c = sum_list (map lines (files c))
         \<and> critical c = int (length (filter (\<lambda>f. status f = ''critical'') (files c)))
         \<and> warning c = int (length (filter (\<lambda>f. status f = ''warning'') (files c)))
         \<and> good c = int (length (filter (\<lambda>f. status f = ''good'') (files c)))"
      unfolding c by (elim conjE) (intro conjI; simp only:)
    note p = this
    show "case e of (k, c) \<Rightarrow>
         name c = k
         \<and> files c = filter (\<lambda>f. category f = k) fs
         \<and> total_files c = critical c + warning c + good c
         \<and> total_files c = int (length (files c))
         \<and> total_lines c = sum_list (map lines (files c))
         \<and> critical c = int (length (filter (\<lambda>f. status f = ''critical'') (files c)))
         \<and> warning c = int (length (filter (\<lambda>f. status f = ''warning'') (files c)))
         \<and> good c = int (length (filter (\<lambda>f. status f = ''good'') (files c)))"
      unfolding kc prod.case by (rule p)
  qed
qed

theorem build_stats_totality_witness:
  "\<lparr>path = ''src/main/services/foo.ts'', lines = 520, category = ''Main Services''\<rparr> \<in> set sample_files
   \<and> (\<exists>!e. e \<in> set (build_stats sample_files)
          \<and> \<lparr>path = ''src/main/services/foo.ts'', lines = 520, category = ''Main Services''\<rparr>
               \<in> set (files (snd e)))
   \<and> (''Main Services'',
       \<lparr>name = ''Main Services'', total_files = 1, critical = 1, warning = 0, good = 0,
        total_lines = 520,
        files = [\<lparr>path = ''src/main/services/foo.ts'', lines = 520, category = ''Main Services''\<rparr>]\<rparr>)
        \<in> set (build_stats sample_files)
   \<and> (1::int) = 1 + 0 + 0
   \<and> sum_list (map (\<lambda>e. total_files (snd e)) (build_stats sample_files)) = 2"
proof -
  let ?f = "\<lparr>path = ''src/main/services/foo.ts'', lines = 520, category = ''Main Services''\<rparr>"
  let ?c = "\<lparr>name = ''Main Services'', total_files = 1, critical = 1, warning = 0, good = 0,
        total_lines = 520, files = [?f]\<rparr>"
  note th = build_stats_totality [of sample_files]
  have m: "?f \<in> set sample_files" by (simp add: sample_files_def)
  have e: "(''Main Services'', ?c) \<in> set (build_stats sample_files)"
    unfolding sample_build_stats by simp
  from th have "\<forall>f\<in>set sample_files. \<exists>!e. e \<in> set (build_stats sample_files) \<and> f \<in> set (files (snd e))"
    by (elim conjE)
  from bspec [OF this m] have u: "\<exists>!e. e \<in> set (build_stats sample_files) \<and> ?f \<in> set (files (snd e))" .
  from th have "\<forall>(k, c)\<in>set (build_stats sample_files).
         name c = k
         \<and> files c = filter (\<lambda>f. category f = k) sample_files
         \<and> total_files c = critical c + warning c + good c
         \<and> total_files c = int (length (files c))
         \<and> total_lines c = sum_list (map lines (files c))
         \<and> critical c = int (length (filter (\<lambda>f. status f = ''critical'') (files c)))
         \<and> warning c = int (length (filter (\<lambda>f. status f = ''warning'') (files c)))
         \<and> good c = int (length (filter (\<lambda>f. status f = ''good'') (files c)))"
    by (elim conjE)
  from bspec [OF this e] have "total_files ?c = critical ?c + warning ?c + good ?c"
    unfolding prod.case by (elim conjE)
  then have t: "(1::int) = 1 + 0 + 0" by simp
  from th have "sum_list (map (\<lambda>e. total_files (snd e)) (build_stats sample_files)) = int (length sample_files)"
    by (elim conjE)
  then have s: "sum_list (map (\<lambda>e. total_files (snd e)) (build_stats sample_files)) = 2"
    by (simp add: sample_files_def)
  from m u e t s show ?thesis by (intro conjI)
qed

section \<open>First match wins\<close>

text \<open>
  C6. The classifier is a total function of the path: on the path with backslashes
  replaced by slashes it returns the label of the first rule of the ordered rule list that
  matches. So when two rules match and no rule before the earlier of them does, the label
  of the earlier one is returned; when no rule matches the result is \<open>Other\<close>. The labels
  of the rules are pairwise different and none of them is \<open>Other\<close>.
\<close>

theorem categorize_file_first_match:
  "categorize_file p = first_match_spec category_rules (replace_char (CHR 0x5C) (CHR ''/'') p)
   \<and> (\<forall>i k. i \<le> k \<and> k < length category_rules
          \<and> rule_matches (replace_char (CHR 0x5C) (CHR ''/'') p) (category_rules ! i)
          \<and> rule_matches (replace_char (CHR 0x5C) (CHR ''/'') p) (category_rules ! k)
          \<and> (\<forall>j<i. \<not> rule_matches (replace_char (CHR 0x5C) (CHR ''/'') p) (category_rules ! j))
        \<longrightarrow> categorize_file p = snd (category_rules ! i))
   \<and> ((\<forall>r\<in>set category_rules. \<not> rule_matches (replace_char (CHR 0x5C) (CHR ''/'') p) r)
        \<longrightarrow> categorize_file p = ''Other'')
   \<and> distinct (map snd category_rules) \<and> ''Other'' \<notin> set (map snd category_rules)"
proof (intro conjI allI impI)
  show "categorize_file p = first_match_spec category_rules (replace_char (CHR 0x5C) (CHR ''/'') p)"
    by (rule categorize_file_refines)
next
  fix i k
  assume h: "i \<le> k \<and> k < length category_rules
          \<and> rule_matches (replace_char (CHR 0x5C) (CHR ''/'') p) (category_rules ! i)
          \<and> rule_matches (replace_char (CHR 0x5C) (CHR ''/'') p) (category_rules ! k)
          \<and> (\<forall>j<i. \<not> rule_matches (replace_char (CHR 0x5C) (CHR ''/'') p) (category_rules ! j))"
  then have "i < length category_rules" by simp
  with h show "categorize_file p = snd (category_rules ! i)"
    unfolding categorize_file_refines by (intro first_match_spec_index) simp_all
next
  assume "\<forall>r\<in>set category_rules. \<not> rule_matches (replace_char (CHR 0x5C) (CHR ''/'') p) r"
  then show "categorize_file p = ''Other''"
    unfolding categorize_file_refines by (rule first_match_spec_none)
next
  show "distinct (map snd category_rules)" by (simp add: category_rules_def)
next
  show "''Other'' \<notin> set (map snd category_rules)" by (simp add: category_rules_def)
qed

theorem categorize_file_first_match_witness:
  "replace_char (CHR 0x5C) (CHR ''/'') stores_pages_path = ''src/renderer/pages/store/a.ts''
   \<and> (1::nat) \<le> 2 \<and> 2 < length category_rules
   \<and> rule_matches ''src/renderer/pages/store/a.ts'' (category_rules ! 1)
   \<and> rule_matches ''src/renderer/pages/store/a.ts'' (category_rules ! 2)
   \<and> \<not> rule_matches ''src/renderer/pages/store/a.ts'' (category_rules ! 0)
   \<and> snd (category_rules ! 1) = ''Stores'' \<and> snd (category_rules ! 2) = ''Pages''
   \<and> categorize_file stores_pages_path = ''Stores''
   \<and> list_all (\<lambda>r. \<not> rule_matches (replace_char (CHR 0x5C) (CHR ''/'') ''src/index.ts'') r) category_rules
   \<and> categorize_file ''src/index.ts'' = ''Other''"
proof -
  let ?p = stores_pages_path
  let ?s = "''src/renderer/pages/store/a.ts''"
  have n: "replace_char (CHR 0x5C) (CHR ''/'') ?p = ?s"
    by (simp add: stores_pages_path_def replace_char_def)
  have l: "(1::nat) \<le> 2" "2 < length category_rules" by (simp_all add: category_rules_def)
  have m1: "rule_matches ?s (category_rules ! 1)"
    by (simp add: category_rules_def rule_matches_def str_in_def sublist_Cons_right)
  have m2: "rule_matches ?s (category_rules ! 2)"
    by (simp add: category_rules_def rule_matches_def str_in_def sublist_Cons_right)
  have m00: "\<not> rule_matches ?s (category_rules ! 0)"
    by (simp add: category_rules_def rule_matches_def str_in_def sublist_Cons_right)
  then have m0: "\<forall>j<1. \<not> rule_matches ?s (category_rules ! j)" by simp
  have s1: "snd (category_rules ! 1) = ''Stores''" "snd (category_rules ! 2) = ''Pages''"
    by (simp_all add: category_rules_def)
  have no: "\<forall>r\<in>set category_rules. \<not> rule_matches (replace_char (CHR 0x5C) (CHR ''/'') ''src/index.ts'') r"
    by (simp add: category_rules_def rule_matches_def str_in_def sublist_Cons_right replace_char_def)
  then have no': "list_all (\<lambda>r. \<not> rule_matches (replace_char (CHR 0x5C) (CHR ''/'') ''src/index.ts'') r) category_rules"
    unfolding list_all_iff .
  from categorize_file_first_match [of ?p]
  have "\<forall>i k. i \<le> k \<and> k < length category_rules
          \<and> rule_matches (replace_char (CHR 0x5C) (CHR ''/'') ?p) (category_rules ! i)
          \<and> rule_matches (replace_char (CHR 0x5C) (CHR ''/'') ?p) (category_rules ! k)
          \<and> (\<forall>j<i. \<not> rule_matches (replace_char (CHR 0x5C) (CHR ''/'') ?p) (category_rules ! j))
        \<longrightarrow> categorize_file ?p = snd (category_rules ! i)"
    by (elim conjE)
  note a = this
  have prem: "(1::nat) \<le> 2 \<and> 2 < length category_rules
          \<and> rule_matches (replace_char (CHR 0x5C) (CHR ''/'') ?p) (category_rules ! 1)
          \<and> rule_matches (replace_char (CHR 0x5C) (CHR ''/'') ?p) (category_rules ! 2)
          \<and> (\<forall>j<1. \<not> rule_matches (replace_char (CHR 0x5C) (CHR ''/'') ?p) (category_rules ! j))"
    unfolding n using l m1 m2 m0 by (intro conjI)
  from a [rule_format, OF prem] have "categorize_file ?p = snd (category_rules ! 1)" .
  then have c: "categorize_file ?p = ''Stores''" unfolding s1 .
  from categorize_file_first_match [of "''src/index.ts''"]
  have "(\<forall>r\<in>set category_rules. \<not> rule_matches (replace_char (CHR 0x5C) (CHR ''/'') ''src/index.ts'') r)
        \<longrightarrow> categorize_file ''src/index.ts'' = ''Other''"
    by (elim conjE)
  from mp [OF this no] have o: "categorize_file ''src/index.ts'' = ''Other''" .
  from n l m1 m2 m00 s1 c no' o show ?thesis by (intro conjI)
qed

section \<open>The order of the result\<close>

text \<open>
  C7. The result of the scan is sorted by line count in descending order: each record has
  at least as many lines as its successor. Records with equal line counts keep their
  discovery order, the result is a permutation of the discovered records, and it is a
  function of the tree, so two scans of the same tree give the same sequence.
\<close>

theorem scan_files_sorted_stable:
  "(\<forall>i. Suc i < length (scan_files sep src t)
        \<longrightarrow> lines (scan_files sep src t ! i) \<ge> lines (scan_files sep src t ! Suc i))
   \<and> (\<forall>k. filter (\<lambda>f. lines f = k) (scan_files sep src t)
           = filter (\<lambda>f. lines f = k) (discovered sep src t))
   \<and> mset (scan_files sep src t) = mset (discovered sep src t)
   \<and> (t' = t \<longrightarrow> scan_files sep src t' = scan_files sep src t)"
proof (intro conjI allI impI)
  fix i assume i: "Suc i < length (scan_files sep src t)"
  let ?xs = "map (\<lambda>f. - lines f) (scan_files sep src t)"
  have "sorted ?xs" unfolding scan_files_def by (rule sorted_sort_key)
  moreover from i have "i \<le> Suc i" "Suc i < length ?xs" by simp_all
  ultimately have "?xs ! i \<le> ?xs ! Suc i" by (rule sorted_nth_mono)
  with i show "lines (scan_files sep src t ! i) \<ge> lines (scan_files sep src t ! Suc i)" by simp
next
  fix k
  have "filter (\<lambda>f. - lines f = - k) (sort_key (\<lambda>f. - lines f) (discovered sep src t))
          = filter (\<lambda>f. - lines f = - k) (discovered sep src t)"
    by (rule sort_key_stable)
  then show "filter (\<lambda>f. lines f = k) (scan_files sep src t)
           = filter (\<lambda>f. lines f = k) (discovered sep src t)"
    by (simp add: scan_files_def)
next
  show "mset (scan_files sep src t) = mset (discovered sep src t)" by (simp add: scan_files_def)
next
  assume "t' = t" then show "scan_files sep src t' = scan_files sep src t" by simp
qed

theorem scan_files_sorted_stable_witness:
  "discovered (CHR ''/'') ''src'' tree_with_ties =
     [\<lparr>path = ''src/a.ts'', lines = 1, category = ''Other''\<rparr>,
      \<lparr>path = ''src/b.ts'', lines = 2, category = ''Other''\<rparr>,
      \<lparr>path = ''src/c.ts'', lines = 1, category = ''Other''\<rparr>]
   \<and> scan_files (CHR ''/'') ''src'' tree_with_ties =
     [\<lparr>path = ''src/b.ts'', lines = 2, category = ''Other''\<rparr>,
      \<lparr>path = ''src/a.ts'', lines = 1, category = ''Other''\<rparr>,
      \<lparr>path = ''src/c.ts'', lines = 1, category = ''Other''\<rparr>]
   \<and> Suc 0 < length (scan_files (CHR ''/'') ''src'' tree_with_ties)
   \<and> lines (scan_files (CHR ''/'') ''src'' tree_with_ties ! 0)
        \<ge> lines (scan_files (CHR ''/'') ''src'' tree_with_ties ! Suc 0)
   \<and> filter (\<lambda>f. lines f = 1) (scan_files (CHR ''/'') ''src'' tree_with_ties)
        = filter (\<lambda>f. lines f = 1) (discovered (CHR ''/'') ''src'' tree_with_ties)"
proof -
  let ?t = tree_with_ties
  have d: "discovered (CHR ''/'') ''src'' ?t =
     [\<lparr>path = ''src/a.ts'', lines = 1, category = ''Other''\<rparr>,
      \<lparr>path = ''src/b.ts'', lines = 2, category = ''Other''\<rparr>,
      \<lparr>path = ''src/c.ts'', lines = 1, category = ''Other''\<rparr>]"
    unfolding tree_with_ties_def by code_simp
  have s: "scan_files (CHR ''/'') ''src'' ?t =
     [\<lparr>path = ''src/b.ts'', lines = 2, category = ''Other''\<rparr>,
      \<lparr>path = ''src/a.ts'', lines = 1, category = ''Other''\<rparr>,
      \<lparr>path = ''src/c.ts'', lines = 1, category = ''Other''\<rparr>]"
    unfolding scan_files_def d by simp
  have l: "Suc 0 < length (scan_files (CHR ''/'') ''src'' ?t)" unfolding s by simp
  note th = scan_files_sorted_stable [of "CHR ''/''" "''src''" ?t ?t]
  from th have "\<forall>i. Suc i < length (scan_files (CHR ''/'') ''src'' ?t)
        \<longrightarrow> lines (scan_files (CHR ''/'') ''src'' ?t ! i) \<ge> lines (scan_files (CHR ''/'') ''src'' ?t ! Suc i)"
    by (rule conjunct1)
  then have "Suc 0 < length (scan_files (CHR ''/'') ''src'' ?t)
        \<longrightarrow> lines (scan_files (CHR ''/'') ''src'' ?t ! 0) \<ge> lines (scan_files (CHR ''/'') ''src'' ?t ! Suc 0)"
    by (rule spec)
  from mp [OF this l] have o: "lines (scan_files (CHR ''/'') ''src'' ?t ! 0)
        \<ge> lines (scan_files (CHR ''/'') ''src'' ?t ! Suc 0)" .
  from th have "\<forall>k. filter (\<lambda>f. lines f = k) (scan_files (CHR ''/'') ''src'' ?t)
           = filter (\<lambda>f. lines f = k) (discovered (CHR ''/'') ''src'' ?t)"
    by (elim conjE)
  then have f: "filter (\<lambda>f. lines f = 1) (scan_files (CHR ''/'') ''src'' ?t)
        = filter (\<lambda>f. lines f = 1) (discovered (CHR ''/'') ''src'' ?t)"
    by (rule spec)
  from d s l o f show ?thesis by (intro conjI)
qed

section \<open>Unreadable files\<close>

text \<open>
  C8, as stated, counts undecodable bytes among the read failures that give a count of
  zero. The decoder drops such bytes without raising, and the rest of the file is counted:
  a file of an undecodable byte, a line feed and another undecodable byte has one line.
\<close>

theorem count_lines_garbage_counterexample:
  "\<not> count_lines (Stream [Undecodable, Chr (CHR 0x0A), Undecodable]) = 0"
  by (simp add: count_lines_def)

text \<open>
  C8, amended. When opening or reading a file raises an \<open>OSError\<close> (permission denied,
  file vanished), the line counter returns 0; a readable file is counted on its text
  with the undecodable bytes dropped. The failure does not stop the scan: an unreadable
  file in a directory that is not pruned, with an eligible name, is in the output with
  line count 0, and every such file of the tree, readable or not, has a record in the
  output.
\<close>

theorem count_lines_read_failure:
  "count_lines OSError = 0
   \<and> count_lines (Stream ps) = text_line_count (decode_ignore ps)
   \<and> (\<forall>(r, n, c)\<in>set (tree_files src t).
        c = OSError
        \<and> (\<forall>d\<in>set (tl r). d \<notin> set excluded_dirs)
        \<and> (endswith n ''.ts'' \<or> endswith n ''.tsx'')
        \<and> (\<forall>p\<in>exclude_patterns. \<not> str_in p n)
        \<longrightarrow> \<lparr>path = join_path sep (r @ [n]), lines = 0,
              category = categorize_file (join_path sep (r @ [n]))\<rparr> \<in> set (scan_files sep src t))
   \<and> (\<forall>(r, n, c)\<in>set (tree_files src t).
        (\<forall>d\<in>set (tl r). d \<notin> set excluded_dirs)
        \<and> (endswith n ''.ts'' \<or> endswith n ''.tsx'')
        \<and> (\<forall>p\<in>exclude_patterns. \<not> str_in p n)
        \<longrightarrow> (\<exists>f\<in>set (scan_files sep src t). path f = join_path sep (r @ [n])))"
proof (intro conjI)
  show "count_lines OSError = 0" by (simp add: count_lines_def)
  show "count_lines (Stream ps) = text_line_count (decode_ignore ps)" by (simp add: count_lines_def)
  have mem: "\<lparr>path = join_path sep (r @ [n]), lines = count_lines c,
              category = categorize_file (join_path sep (r @ [n]))\<rparr> \<in> set (scan_files sep src t)"
    if "(r, n, c) \<in> set (tree_files src t)" "\<forall>d\<in>set (tl r). d \<notin> set excluded_dirs"
       "endswith n ''.ts'' \<or> endswith n ''.tsx''" "\<forall>p\<in>exclude_patterns. \<not> str_in p n"
    for r n c
  proof -
    from that(3,4) have "\<lparr>path = join_path sep (r @ [n]), lines = count_lines c,
              category = categorize_file (join_path sep (r @ [n]))\<rparr> \<in> set (scan_file sep r (n, c))"
      unfolding scan_file_iff by simp
    with that(1,2) show ?thesis unfolding set_scan_files discovered_iff by blast
  qed
  show "\<forall>(r, n, c)\<in>set (tree_files src t).
        c = OSError
        \<and> (\<forall>d\<in>set (tl r). d \<notin> set excluded_dirs)
        \<and> (endswith n ''.ts'' \<or> endswith n ''.tsx'')
        \<and> (\<forall>p\<in>exclude_patterns. \<not> str_in p n)
        \<longrightarrow> \<lparr>path = join_path sep (r @ [n]), lines = 0,
              category = categorize_file (join_path sep (r @ [n]))\<rparr> \<in> set (scan_files sep src t)"
  proof (rule ballI)
    fix e assume e: "e \<in> set (tree_files src t)"
    obtain r n c where rnc: "e = (r, n, c)" by (cases e)
    from mem [of r n OSError] e rnc
    have "c = OSError
        \<and> (\<forall>d\<in>set (tl r). d \<notin> set excluded_dirs)
        \<and> (endswith n ''.ts'' \<or> endswith n ''.tsx'')
        \<and> (\<forall>p\<in>exclude_patterns. \<not> str_in p n)
        \<longrightarrow> \<lparr>path = join_path sep (r @ [n]), lines = 0,
              category = categorize_file (join_path sep (r @ [n]))\<rparr> \<in> set (scan_files sep src t)"
      by (auto simp: count_lines_def)
    with rnc show "case e of (r, n, c) \<Rightarrow>
        c = OSError
        \<and> (\<forall>d\<in>set (tl r). d \<notin> set excluded_dirs)
        \<and> (endswith n ''.ts'' \<or> endswith n ''.tsx'')
        \<and> (\<forall>p\<in>exclude_patterns. \<not> str_in p n)
        \<longrightarrow> \<lparr>path = join_path sep (r @ [n]), lines = 0,
              category = categorize_file (join_path sep (r @ [n]))\<rparr> \<in> set (scan_files sep src t)"
      by simp
  qed
  show "\<forall>(r, n, c)\<in>set (tree_files src t).
        (\<forall>d\<in>set (tl r). d \<notin> set excluded_dirs)
        \<and> (endswith n ''.ts'' \<or> endswith n ''.tsx'')
        \<and> (\<forall>p\<in>exclude_patterns. \<not> str_in p n)
        \<longrightarrow> (\<exists>f\<in>set (scan_files sep src t). path f = join_path sep (r @ [n]))"
  proof (rule ballI)
    fix e assume e: "e \<in> set (tree_files src t)"
    obtain r n c where rnc: "e = (r, n, c)" by (cases e)
    have "(\<forall>d\<in>set (tl r). d \<notin> set excluded_dirs)
        \<and> (endswith n ''.ts'' \<or> endswith n ''.tsx'')
        \<and> (\<forall>p\<in>exclude_patterns. \<not> str_in p n)
        \<longrightarrow> (\<exists>f\<in>set (scan_files sep src t). path f = join_path sep (r @ [n]))"
    proof
      assume h: "(\<forall>d\<in>set (tl r). d \<notin> set excluded_dirs)
        \<and> (endswith n ''.ts'' \<or> endswith n ''.tsx'')
        \<and> (\<forall>p\<in>exclude_patterns. \<not> str_in p n)"
      with mem [of r n c] e rnc
      have "\<lparr>path = join_path sep (r @ [n]), lines = count_lines c,
              category = categorize_file (join_path sep (r @ [n]))\<rparr> \<in> set (scan_files sep src t)"
        by simp
      then show "\<exists>f\<in>set (scan_files sep src t). path f = join_path sep (r @ [n])"
        by (rule rev_bexI) simp
    qed
    with rnc show "case e of (r, n, c) \<Rightarrow>
        (\<forall>d\<in>set (tl r). d \<notin> set excluded_dirs)
        \<and> (endswith n ''.ts'' \<or> endswith n ''.tsx'')
        \<and> (\<forall>p\<in>exclude_patterns. \<not> str_in p n)
        \<longrightarrow> (\<exists>f\<in>set (scan_files sep src t). path f = join_path sep (r @ [n]))"
      by simp
  qed
qed

theorem count_lines_read_failure_witness:
  "([''src''], ''locked.ts'', OSError) \<in> set (tree_files ''src'' tree_with_unreadable)
   \<and> tl [''src''] = []
   \<and> endswith ''locked.ts'' ''.ts''
   \<and> \<not> str_in ''.spec.'' ''locked.ts'' \<and> \<not> str_in ''.test.'' ''locked.ts''
   \<and> \<not> str_in ''__tests__'' ''locked.ts'' \<and> \<not> str_in ''__mocks__'' ''locked.ts''
   \<and> \<lparr>path = ''src/locked.ts'', lines = 0, category = ''Other''\<rparr>
        \<in> set (scan_files (CHR ''/'') ''src'' tree_with_unreadable)
   \<and> scan_files (CHR ''/'') ''src'' tree_with_unreadable =
        [\<lparr>path = ''src/ok.ts'', lines = 1, category = ''Other''\<rparr>,
         \<lparr>path = ''src/locked.ts'', lines = 0, category = ''Other''\<rparr>]"
proof -
  let ?t = tree_with_unreadable
  have m: "([''src''], ''locked.ts'', OSError) \<in> set (tree_files ''src'' ?t)"
    by (simp add: tree_with_unreadable_def tree_files_def)
  have d0: "tl [''src''] = []" by simp
  then have d: "\<forall>d\<in>set (tl [''src'']). d \<notin> set excluded_dirs" by simp
  have e: "endswith ''locked.ts'' ''.ts''" by (simp add: endswith_def suffix_to_prefix)
  have s0: "\<not> str_in ''.spec.'' ''locked.ts''" "\<not> str_in ''.test.'' ''locked.ts''"
      "\<not> str_in ''__tests__'' ''locked.ts''" "\<not> str_in ''__mocks__'' ''locked.ts''"
    by (simp_all add: str_in_def sublist_Cons_right)
  then have s: "\<forall>p\<in>exclude_patterns. \<not> str_in p ''locked.ts''"
    by (simp add: exclude_patterns_def)
  have v: "join_path (CHR ''/'') ([''src''] @ [''locked.ts'']) = ''src/locked.ts''" by simp
  have c: "categorize_file ''src/locked.ts'' = ''Other''" by code_simp
  have a: "scan_files (CHR ''/'') ''src'' ?t =
        [\<lparr>path = ''src/ok.ts'', lines = 1, category = ''Other''\<rparr>,
         \<lparr>path = ''src/locked.ts'', lines = 0, category = ''Other''\<rparr>]"
    unfolding tree_with_unreadable_def by code_simp
  from count_lines_read_failure [of "[]" "''src''" ?t "CHR ''/''"]
  have "\<forall>(r, n, c)\<in>set (tree_files ''src'' ?t).
        c = OSError
        \<and> (\<forall>d\<in>set (tl r). d \<notin> set excluded_dirs)
        \<and> (endswith n ''.ts'' \<or> endswith n ''.tsx'')
        \<and> (\<forall>p\<in>exclude_patterns. \<not> str_in p n)
        \<longrightarrow> \<lparr>path = join_path (CHR ''/'') (r @ [n]), lines = 0,
              category = categorize_file (join_path (CHR ''/'') (r @ [n]))\<rparr>
            \<in> set (scan_files (CHR ''/'') ''src'' ?t)"
    by (elim conjE)
  from bspec [OF this m] d e s
  have "\<lparr>path = join_path (CHR ''/'') ([''src''] @ [''locked.ts'']), lines = 0,
          category = categorize_file (join_path (CHR ''/'') ([''src''] @ [''locked.ts'']))\<rparr>
            \<in> set (scan_files (CHR ''/'') ''src'' ?t)"
    by simp
  then have o: "\<lparr>path = ''src/locked.ts'', lines = 0, category = ''Other''\<rparr>
        \<in> set (scan_files (CHR ''/'') ''src'' ?t)"
    unfolding v c .
  from m d0 e s0 o a show ?thesis by (intro conjI)
qed

section \<open>The workflow hook rule\<close>

text \<open>
  C9. A path that contains \<open>useSmartSearchWorkflow\<close> and, with backslashes replaced by
  slashes, contains none of \<open>/ipc/\<close>, \<open>/store/\<close>, \<open>/stores/\<close>, \<open>/pages/\<close>,
  \<open>/main/services/\<close> is classified as \<open>Renderer Components\<close>, whether or not it
  contains \<open>/components/\<close>.
\<close>

theorem categorize_file_smart_search:
  assumes "str_in ''useSmartSearchWorkflow'' p"
    and "\<not> str_in ''/ipc/'' (replace_char (CHR 0x5C) (CHR ''/'') p)"
    and "\<not> str_in ''/store/'' (replace_char (CHR 0x5C) (CHR ''/'') p)"
    and "\<not> str_in ''/stores/'' (replace_char (CHR 0x5C) (CHR ''/'') p)"
    and "\<not> str_in ''/pages/'' (replace_char (CHR 0x5C) (CHR ''/'') p)"
    and "\<not> str_in ''/main/services/'' (replace_char (CHR 0x5C) (CHR ''/'') p)"
  shows "categorize_file p = ''Renderer Components''"
proof -
  have "CHR 0x5C \<notin> set ''useSmartSearchWorkflow''" by simp
  with assms(1) have "str_in ''useSmartSearchWorkflow'' (replace_char (CHR 0x5C) (CHR ''/'') p)"
    by (rule str_in_replace_char)
  with assms(2-) show ?thesis by (simp add: categorize_file_def Let_def)
qed

theorem categorize_file_smart_search_witness:
  "str_in ''useSmartSearchWorkflow'' ''src/renderer/hooks/useSmartSearchWorkflow.ts''
   \<and> \<not> str_in ''/components/'' ''src/renderer/hooks/useSmartSearchWorkflow.ts''
   \<and> str_in ''/renderer/'' ''src/renderer/hooks/useSmartSearchWorkflow.ts''
   \<and> categorize_file ''src/renderer/hooks/useSmartSearchWorkflow.ts'' = ''Renderer Components''"
proof -
  let ?p = "''src/renderer/hooks/useSmartSearchWorkflow.ts''"
  have n: "replace_char (CHR 0x5C) (CHR ''/'') ?p = ?p" by (simp add: replace_char_def)
  have u: "str_in ''useSmartSearchWorkflow'' ?p" by (simp add: str_in_def sublist_Cons_right)
  have e: "\<not> str_in ''/ipc/'' ?p" "\<not> str_in ''/store/'' ?p" "\<not> str_in ''/stores/'' ?p"
     "\<not> str_in ''/pages/'' ?p" "\<not> str_in ''/main/services/'' ?p"
    by (simp_all add: str_in_def sublist_Cons_right)
  have c: "\<not> str_in ''/components/'' ?p" by (simp add: str_in_def sublist_Cons_right)
  have r: "str_in ''/renderer/'' ?p" by (simp add: str_in_def sublist_Cons_right)
  from categorize_file_smart_search [of ?p, unfolded n, OF u e]
  have "categorize_file ?p = ''Renderer Components''" .
  with u c r show ?thesis by (intro conjI)
qed

section \<open>Test directories\<close>

text \<open>
  C10. The exclusion substrings are tested on the file name only and directories are
  pruned by the three exact names only: every file of the tree whose ancestors below the
  root are none of \<open>node_modules\<close>, \<open>dist\<close>, \<open>.git\<close> and whose own name is eligible has
  its record in the output. In particular \<open>helper.ts\<close> inside a directory \<open>__tests__\<close>
  is in the output.
\<close>

theorem test_dirs_are_scanned:
  "(\<forall>(r, n, c)\<in>set (tree_files src t).
      (\<forall>d\<in>set (tl r). d \<noteq> ''node_modules'' \<and> d \<noteq> ''dist'' \<and> d \<noteq> ''.git'')
      \<and> (endswith n ''.ts'' \<or> endswith n ''.tsx'')
      \<and> \<not> str_in ''.spec.'' n \<and> \<not> str_in ''.test.'' n
      \<and> \<not> str_in ''__tests__'' n \<and> \<not> str_in ''__mocks__'' n
      \<longrightarrow> \<lparr>path = join_path sep (r @ [n]), lines = count_lines c,
            category = categorize_file (join_path sep (r @ [n]))\<rparr> \<in> set (scan_files sep src t))
   \<and> \<lparr>path = ''src/__tests__/helper.ts'', lines = 1, category = ''Other''\<rparr>
        \<in> set (scan_files (CHR ''/'') ''src''
                 (Dir [(''__tests__'', Dir [(''helper.ts'', File (Stream [Chr (CHR ''h'')]))])]))"
proof (rule conjI)
  show "\<forall>(r, n, c)\<in>set (tree_files src t).
      (\<forall>d\<in>set (tl r). d \<noteq> ''node_modules'' \<and> d \<noteq> ''dist'' \<and> d \<noteq> ''.git'')
      \<and> (endswith n ''.ts'' \<or> endswith n ''.tsx'')
      \<and> \<not> str_in ''.spec.'' n \<and> \<not> str_in ''.test.'' n
      \<and> \<not> str_in ''__tests__'' n \<and> \<not> str_in ''__mocks__'' n
      \<longrightarrow> \<lparr>path = join_path sep (r @ [n]), lines = count_lines c,
            category = categorize_file (join_path sep (r @ [n]))\<rparr> \<in> set (scan_files sep src t)"
  proof (rule ballI)
    fix e assume e: "e \<in> set (tree_files src t)"
    obtain r n c where rnc: "e = (r, n, c)" by (cases e)
    have "(\<forall>d\<in>set (tl r). d \<noteq> ''node_modules'' \<and> d \<noteq> ''dist'' \<and> d \<noteq> ''.git'')
      \<and> (endswith n ''.ts'' \<or> endswith n ''.tsx'')
      \<and> \<not> str_in ''.spec.'' n \<and> \<not> str_in ''.test.'' n
      \<and> \<not> str_in ''__tests__'' n \<and> \<not> str_in ''__mocks__'' n
      \<longrightarrow> \<lparr>path = join_path sep (r @ [n]), lines = count_lines c,
            category = categorize_file (join_path sep (r @ [n]))\<rparr> \<in> set (scan_files sep src t)"
    proof
      assume h: "(\<forall>d\<in>set (tl r). d \<noteq> ''node_modules'' \<and> d \<noteq> ''dist'' \<and> d \<noteq> ''.git'')
        \<and> (endswith n ''.ts'' \<or> endswith n ''.tsx'')
        \<and> \<not> str_in ''.spec.'' n \<and> \<not> str_in ''.test.'' n
        \<and> \<not> str_in ''__tests__'' n \<and> \<not> str_in ''__mocks__'' n"
      then have k: "\<forall>d\<in>set (tl r). d \<notin> set excluded_dirs" by (simp add: excluded_dirs_def)
      from h have "\<lparr>path = join_path sep (r @ [n]), lines = count_lines c,
            category = categorize_file (join_path sep (r @ [n]))\<rparr> \<in> set (scan_file sep r (n, c))"
        unfolding scan_file_iff by (simp add: exclude_patterns_def)
      with e rnc k show "\<lparr>path = join_path sep (r @ [n]), lines = count_lines c,
            category = categorize_file (join_path sep (r @ [n]))\<rparr> \<in> set (scan_files sep src t)"
        unfolding set_scan_files discovered_iff by blast
    qed
    with rnc show "case e of (r, n, c) \<Rightarrow>
      (\<forall>d\<in>set (tl r). d \<noteq> ''node_modules'' \<and> d \<noteq> ''dist'' \<and> d \<noteq> ''.git'')
      \<and> (endswith n ''.ts'' \<or> endswith n ''.tsx'')
      \<and> \<not> str_in ''.spec.'' n \<and> \<not> str_in ''.test.'' n
      \<and> \<not> str_in ''__tests__'' n \<and> \<not> str_in ''__mocks__'' n
      \<longrightarrow> \<lparr>path = join_path sep (r @ [n]), lines = count_lines c,
            category = categorize_file (join_path sep (r @ [n]))\<rparr> \<in> set (scan_files sep src t)"
      by simp
  qed
next
  show "\<lparr>path = ''src/__tests__/helper.ts'', lines = 1, category = ''Other''\<rparr>
        \<in> set (scan_files (CHR ''/'') ''src''
                 (Dir [(''__tests__'', Dir [(''helper.ts'', File (Stream [Chr (CHR ''h'')]))])]))"
    by code_simp
qed

theorem test_dirs_are_scanned_witness:
  "([''src'', ''__mocks__''], ''helper.ts'', Stream [Chr (CHR ''h'')])
        \<in> set (tree_files ''src'' tree_with_mocks_dir)
   \<and> list_all (\<lambda>d. d \<noteq> ''node_modules'' \<and> d \<noteq> ''dist'' \<and> d \<noteq> ''.git'') (tl [''src'', ''__mocks__''])
   \<and> endswith ''helper.ts'' ''.ts''
   \<and> \<not> str_in ''.spec.'' ''helper.ts'' \<and> \<not> str_in ''.test.'' ''helper.ts''
   \<and> \<not> str_in ''__tests__'' ''helper.ts'' \<and> \<not> str_in ''__mocks__'' ''helper.ts''
   \<and> \<lparr>path = ''src/__mocks__/helper.ts'', lines = 1, category = ''Other''\<rparr>
        \<in> set (scan_files (CHR ''/'') ''src'' tree_with_mocks_dir)"
proof -
  let ?t = tree_with_mocks_dir
  have m: "([''src'', ''__mocks__''], ''helper.ts'', Stream [Chr (CHR ''h'')]) \<in> set (tree_files ''src'' ?t)"
    by (simp add: tree_with_mocks_dir_def tree_files_def)
  have d: "\<forall>d\<in>set (tl [''src'', ''__mocks__'']). d \<noteq> ''node_modules'' \<and> d \<noteq> ''dist'' \<and> d \<noteq> ''.git''"
    by simp
  then have d': "list_all (\<lambda>d. d \<noteq> ''node_modules'' \<and> d \<noteq> ''dist'' \<and> d \<noteq> ''.git'') (tl [''src'', ''__mocks__''])"
    unfolding list_all_iff .
  have e: "endswith ''helper.ts'' ''.ts''" by (simp add: endswith_def suffix_to_prefix)
  have s: "\<not> str_in ''.spec.'' ''helper.ts''" "\<not> str_in ''.test.'' ''helper.ts''"
      "\<not> str_in ''__tests__'' ''helper.ts''" "\<not> str_in ''__mocks__'' ''helper.ts''"
    by (simp_all add: str_in_def sublist_Cons_right)
  have v: "join_path (CHR ''/'') ([''src'', ''__mocks__''] @ [''helper.ts'']) = ''src/__mocks__/helper.ts''"
    by simp
  have l: "count_lines (Stream [Chr (CHR ''h'')]) = 1" by (simp add: count_lines_def)
  have c: "categorize_file ''src/__mocks__/helper.ts'' = ''Other''" by code_simp
  from test_dirs_are_scanned [of "''src''" ?t "CHR ''/''"]
  have "\<forall>(r, n, c)\<in>set (tree_files ''src'' ?t).
      (\<forall>d\<in>set (tl r). d \<noteq> ''node_modules'' \<and> d \<noteq> ''dist'' \<and> d \<noteq> ''.git'')
      \<and> (endswith n ''.ts'' \<or> endswith n ''.tsx'')
      \<and> \<not> str_in ''.spec.'' n \<and> \<not> str_in ''.test.'' n
      \<and> \<not> str_in ''__tests__'' n \<and> \<not> str_in ''__mocks__'' n
      \<longrightarrow> \<lparr>path = join_path (CHR ''/'') (r @ [n]), lines = count_lines c,
            category = categorize_file (join_path (CHR ''/'') (r @ [n]))\<rparr>
          \<in> set (scan_files (CHR ''/'') ''src'' ?t)"
    by (rule conjunct1)
  from bspec [OF this m] d e s
  have "\<lparr>path = join_path (CHR ''/'') ([''src'', ''__mocks__''] @ [''helper.ts'']),
          lines = count_lines (Stream [Chr (CHR ''h'')]),
          category = categorize_file (join_path (CHR ''/'') ([''src'', ''__mocks__''] @ [''helper.ts'']))\<rparr>
          \<in> set (scan_files (CHR ''/'') ''src'' ?t)"
    by simp
  then have o: "\<lparr>path = ''src/__mocks__/helper.ts'', lines = 1, category = ''Other''\<rparr>
        \<in> set (scan_files (CHR ''/'') ''src'' ?t)"
    unfolding v l c .
  from m d' e s o show ?thesis by (intro conjI)
qed

end
